theory Spec2Isabelle
  imports Complex_Main "HOL-Library.Word" "HOL-Library.Code_Target_Nat"
begin

unbundle bit_operations_syntax

section \<open>Data model\<close>

text \<open>
  The steganography engine (\<^verbatim>\<open>lib/steganography.ts\<close>) works on three kinds of data:
  bytes held in \<^verbatim>\<open>Uint8Array\<close> and \<^verbatim>\<open>Uint8ClampedArray\<close> buffers, JavaScript numbers
  used as sizes, indices and generator state, and strings. Bytes are \<open>8 word\<close>;
  sizes, indices and the generator state are \<open>nat\<close> (every one of them is a
  non-negative integer in the source); a string is the list of its UTF-16 code units,
  which is what \<^verbatim>\<open>charCodeAt\<close> reads. A single bit is the number 0 or 1 that the source
  computes with \<^verbatim>\<open>(byte >> i) & 1\<close> or \<^verbatim>\<open>pixelValue & 1\<close>; it is kept in the byte type in
  which it is computed.
\<close>

type_synonym u8 = "8 word"
type_synonym jsstring = "16 word list"

text \<open>
  The exceptions the engine can raise: the explicit
  \<^verbatim>\<open>throw new Error('Image too small for data payload')\<close> of the scheduler, and the
  \<^verbatim>\<open>RangeError\<close> of \<^verbatim>\<open>DataView\<close> and \<^verbatim>\<open>TypedArray.set\<close> on an access outside the buffer
  and of \<^verbatim>\<open>Array.prototype.push\<close> on an array that already has \<open>2^32 - 1\<close> elements, the
  largest length of a JavaScript array.
  All are caught by the \<^verbatim>\<open>try/catch\<close> of the exported functions and returned as
  \<^verbatim>\<open>{ success: false, error }\<close>; that result is \<open>Inl e\<close> here.
\<close>

datatype error = CapacityExceeded | RangeError

text \<open>The pixel buffer of the canvas: \<^verbatim>\<open>ctx.getImageData(0, 0, width, height)\<close>.\<close>

record ImageData =
  width :: nat
  height :: nat
  data :: "u8 list"

text \<open>
  \<^verbatim>\<open>EncryptionResult\<close> of \<^verbatim>\<open>lib/crypto.ts\<close>. A successful \<^verbatim>\<open>ExtractionResult\<close> carries
  the same four fields, so extraction returns \<open>error + EncryptionResult\<close>.
\<close>

record EncryptionResult =
  encryptedData :: "u8 list"
  iv :: "u8 list"
  salt :: "u8 list"
  hash :: jsstring

definition bindE :: "error + 'a \<Rightarrow> ('a \<Rightarrow> error + 'b) \<Rightarrow> error + 'b" where
  "bindE r f = (case r of Inl e \<Rightarrow> Inl e | Inr x \<Rightarrow> f x)"

section \<open>The pseudo-random number generator\<close>

text \<open>
  \<^verbatim>\<open>class PRNG\<close>. The constructor folds the seed string into a 32-bit signed integer:
  \<^verbatim>\<open>hash = ((hash << 5) - hash) + char; hash = hash & hash\<close>. Both \<^verbatim>\<open><<\<close> and \<^verbatim>\<open>&\<close>
  convert to a 32-bit integer, and the intermediate sum is far below \<open>2^53\<close>, so the
  loop is arithmetic modulo \<open>2^32\<close>; \<^verbatim>\<open>Math.abs\<close> then reads the word as signed.
  The object's only field is the seed, so the generator state is that number.
\<close>

definition PRNG_new :: "jsstring \<Rightarrow> nat" where
  "PRNG_new seed =
     nat \<bar>sint (fold (\<lambda>c hash. (push_bit 5 hash - hash) + ucast c) seed (0 :: 32 word))\<bar>"

text \<open>
  \<^verbatim>\<open>next()\<close> stores \<^verbatim>\<open>(seed * 1664525 + 1013904223) % 2^32\<close> and returns
  \<^verbatim>\<open>seed / 2^32\<close>. With a seed below \<open>2^32\<close> the product
  \<open>seed * 1664525 + 1013904223\<close> is below \<open>2^53\<close> and the division by \<open>2^32\<close> is a change of
  exponent, so both are exact in double precision. The function returns the value
  together with the new state.
\<close>

definition PRNG_next :: "nat \<Rightarrow> real \<times> nat" where
  "PRNG_next seed =
     (let seed' = (seed * 1664525 + 1013904223) mod 2 ^ 32
      in (real seed' / 2 ^ 32, seed'))"

text \<open>
  Double precision. A JavaScript number is an IEEE 754 double, with 53 significant bits,
  and an arithmetic operation returns the double nearest to the exact result, a tie going
  to the even significand. For an exact result that is a natural number \<open>x\<close> this double
  is \<open>fl53 x\<close>: \<open>x\<close> itself below \<open>2^53\<close>, and otherwise the nearest multiple of \<open>2^e\<close>,
  where \<open>e\<close> is the number of bits of \<open>x\<close> beyond the first 53.
\<close>

fun bitLength :: "nat \<Rightarrow> nat" where
  "bitLength n = (if n = 0 then 0 else Suc (bitLength (n div 2)))"

declare bitLength.simps [simp del]

definition fl53 :: "nat \<Rightarrow> nat" where
  "fl53 x =
     (if x < 2 ^ 53 then x
      else let e = bitLength x - 53;
               q = x div 2 ^ e;
               r = x mod 2 ^ e;
               half = 2 ^ (e - 1)
           in if r < half \<or> (r = half \<and> even q) then q * 2 ^ e else (q + 1) * 2 ^ e)"

text \<open>
  \<^verbatim>\<open>nextInt(max)\<close> is \<^verbatim>\<open>Math.floor(this.next() * max)\<close>, a product of two doubles. The
  first factor is \<open>k / 2^32\<close> for the new seed \<open>k < 2^32\<close>, the second is the pixel count,
  a natural number. The exact product is \<open>k * max / 2^32\<close>; rounding to 53 significant
  bits commutes with the division by \<open>2^32\<close>, which changes the exponent only, so the
  double product is \<open>fl53 (k * max) / 2^32\<close>. It differs from the exact product once
  \<open>k * max\<close> reaches \<open>2^53\<close>, which takes an image of more than \<open>2^21\<close> pixels.
\<close>

definition double_times :: "real \<Rightarrow> nat \<Rightarrow> real" where
  "double_times r mx = real (fl53 (nat \<lfloor>r * 2 ^ 32\<rfloor> * mx)) / 2 ^ 32"

definition PRNG_nextInt :: "nat \<Rightarrow> nat \<Rightarrow> nat \<times> nat" where
  "PRNG_nextInt seed mx =
     (case PRNG_next seed of (r, seed') \<Rightarrow> (nat \<lfloor>double_times r mx\<rfloor>, seed'))"

section \<open>The position scheduler\<close>

text \<open>
  The \<^verbatim>\<open>while (positions.length < bitsNeeded)\<close> loop of \<^verbatim>\<open>generatePixelPositions\<close>.
  Nothing in the loop bounds the number of draws, so it is a partial function: \<open>None\<close>
  is the loop that never ends. \<^verbatim>\<open>positions\<close> is a JavaScript array: \<^verbatim>\<open>push\<close> on an array
  of \<open>2^32 - 1\<close> elements throws a \<^verbatim>\<open>RangeError\<close>, which ends the loop with \<open>Inl RangeError\<close>.
\<close>

partial_function (option) positions_loop ::
  "nat \<Rightarrow> nat \<Rightarrow> nat \<Rightarrow> nat list \<Rightarrow> nat set \<Rightarrow> (error + nat list) option" where
  "positions_loop totalPixels bitsNeeded prng positions used =
     (if length positions < bitsNeeded then
        (case PRNG_nextInt prng totalPixels of
           (pos, prng') \<Rightarrow>
             if pos \<notin> used
             then if length positions = 2 ^ 32 - 1 then Some (Inl RangeError)
                  else positions_loop totalPixels bitsNeeded prng' (positions @ [pos])
                         (insert pos used)
             else positions_loop totalPixels bitsNeeded prng' positions used)
      else Some (Inr positions))"

text \<open>
  \<^verbatim>\<open>generatePixelPositions(width, height, dataLength, seed)\<close>: \<open>Some (Inl e)\<close> is a
  \<^verbatim>\<open>throw\<close>, \<open>Some (Inr positions)\<close> the returned array, \<open>None\<close> a call that does not
  return. The arithmetic on sizes (\<open>width * height\<close>, \<open>32 + dataLength * 8\<close>,
  \<open>totalPixels * 3\<close>) is exact in double precision while the results are below \<open>2^53\<close>,
  that is for every image of fewer than \<open>2^51\<close> pixels and every payload of fewer than
  \<open>2^50\<close> bytes; it is taken exactly here.
\<close>

definition generatePixelPositions ::
  "nat \<Rightarrow> nat \<Rightarrow> nat \<Rightarrow> jsstring \<Rightarrow> (error + nat list) option" where
  "generatePixelPositions w h dataLength seed =
     (let totalPixels = w * h;
          prng = PRNG_new seed;
          bitsNeeded = 32 + dataLength * 8
      in if bitsNeeded > totalPixels * 3 then Some (Inl CapacityExceeded)
         else positions_loop totalPixels bitsNeeded prng [] {})"

section \<open>The generator as an object\<close>

text \<open>
  The functions above pass the generator's only field along as a value. In the program
  the generator is an object with a mutable field: \<^verbatim>\<open>new PRNG(seed)\<close> allocates it,
  \<^verbatim>\<open>next()\<close> assigns to \<^verbatim>\<open>this.seed\<close>. To say what a call depends on, the program state
  has to be part of the model. Here it is the heap of generator objects: the value of the
  \<^verbatim>\<open>seed\<close> field at every reference, and the number of objects allocated so far, which
  is the reference the next \<^verbatim>\<open>new\<close> returns. The functions below are the same code once
  more, with the heap threaded through; they return the heap they leave behind.
\<close>

type_synonym ref = nat

record heap =
  PRNG_seed :: "ref \<Rightarrow> nat"
  allocated :: nat

text \<open>\<^verbatim>\<open>new PRNG(seed)\<close>: a fresh object, its field set to the hash of the seed string.\<close>

definition PRNG_constructor :: "jsstring \<Rightarrow> heap \<Rightarrow> ref \<times> heap" where
  "PRNG_constructor seed \<sigma> =
     (let obj = allocated \<sigma>
      in (obj, \<sigma>\<lparr>PRNG_seed := (PRNG_seed \<sigma>)(obj := PRNG_new seed), allocated := Suc obj\<rparr>))"

text \<open>\<^verbatim>\<open>next()\<close> and \<^verbatim>\<open>nextInt(max)\<close> on the object \<open>obj\<close>.\<close>

definition PRNG_next_heap :: "ref \<Rightarrow> heap \<Rightarrow> real \<times> heap" where
  "PRNG_next_heap obj \<sigma> =
     (let \<sigma>' = \<sigma>\<lparr>PRNG_seed := (PRNG_seed \<sigma>)
                      (obj := (PRNG_seed \<sigma> obj * 1664525 + 1013904223) mod 2 ^ 32)\<rparr>
      in (real (PRNG_seed \<sigma>' obj) / 2 ^ 32, \<sigma>'))"

definition PRNG_nextInt_heap :: "ref \<Rightarrow> nat \<Rightarrow> heap \<Rightarrow> nat \<times> heap" where
  "PRNG_nextInt_heap obj mx \<sigma> =
     (case PRNG_next_heap obj \<sigma> of (r, \<sigma>') \<Rightarrow> (nat \<lfloor>double_times r mx\<rfloor>, \<sigma>'))"

text \<open>
  The loop and the function \<^verbatim>\<open>generatePixelPositions\<close>, called in the heap \<open>\<sigma>\<close>. The
  generator is constructed before the capacity check, as in the source.
\<close>

partial_function (option) positions_loop_heap ::
  "nat \<Rightarrow> nat \<Rightarrow> ref \<Rightarrow> nat list \<Rightarrow> nat set \<Rightarrow> heap \<Rightarrow> ((error + nat list) \<times> heap) option" where
  "positions_loop_heap totalPixels bitsNeeded prng positions used \<sigma> =
     (if length positions < bitsNeeded then
        (case PRNG_nextInt_heap prng totalPixels \<sigma> of
           (pos, \<sigma>') \<Rightarrow>
             if pos \<notin> used
             then if length positions = 2 ^ 32 - 1 then Some (Inl RangeError, \<sigma>')
                  else positions_loop_heap totalPixels bitsNeeded prng (positions @ [pos])
                         (insert pos used) \<sigma>'
             else positions_loop_heap totalPixels bitsNeeded prng positions used \<sigma>')
      else Some (Inr positions, \<sigma>))"

definition generatePixelPositions_heap ::
  "nat \<Rightarrow> nat \<Rightarrow> nat \<Rightarrow> jsstring \<Rightarrow> heap \<Rightarrow> ((error + nat list) \<times> heap) option" where
  "generatePixelPositions_heap w h dataLength seed \<sigma> =
     (let totalPixels = w * h
      in case PRNG_constructor seed \<sigma> of
           (prng, \<sigma>1) \<Rightarrow>
             let bitsNeeded = 32 + dataLength * 8
             in if bitsNeeded > totalPixels * 3 then Some (Inl CapacityExceeded, \<sigma>1)
                else positions_loop_heap totalPixels bitsNeeded prng [] {} \<sigma>1)"

section \<open>Bits and bytes\<close>

definition embedBit :: "u8 \<Rightarrow> u8 \<Rightarrow> u8" where
  "embedBit pixelValue b = (pixelValue AND 0xFE) OR b"

definition extractBit :: "u8 \<Rightarrow> u8" where
  "extractBit pixelValue = pixelValue AND 1"

text \<open>The inner loop of \<^verbatim>\<open>dataToBits\<close>: \<^verbatim>\<open>for (let i = 7; i >= 0; i--)\<close>.\<close>

definition byteBits :: "u8 \<Rightarrow> u8 list" where
  "byteBits byte = map (\<lambda>i. drop_bit i byte AND 1) [7, 6, 5, 4, 3, 2, 1, 0]"

definition dataToBits :: "u8 list \<Rightarrow> u8 list" where
  "dataToBits bytes = concat (map byteBits bytes)"

text \<open>
  \<^verbatim>\<open>bitsToData\<close>: a zeroed buffer of \<^verbatim>\<open>Math.ceil(bits.length / 8)\<close> bytes, then one pass
  over the bit indices that ORs \<^verbatim>\<open>1 << (7 - i % 8)\<close> into byte \<^verbatim>\<open>Math.floor(i / 8)\<close> for
  every truthy bit.
\<close>

definition bitsToData_step :: "u8 list \<Rightarrow> nat \<Rightarrow> u8 list \<Rightarrow> u8 list" where
  "bitsToData_step bits i bytes =
     (let byteIndex = i div 8; bitIndex = 7 - i mod 8
      in if bits ! i \<noteq> 0
         then bytes[byteIndex := (bytes ! byteIndex) OR push_bit bitIndex 1]
         else bytes)"

definition bitsToData :: "u8 list \<Rightarrow> u8 list" where
  "bitsToData bits =
     fold (bitsToData_step bits) [0..<length bits] (replicate ((length bits + 7) div 8) 0)"

section \<open>Typed arrays and the payload\<close>

text \<open>
  \<^verbatim>\<open>DataView.setUint32(offset, value)\<close> and \<^verbatim>\<open>getUint32(offset)\<close> (big-endian, the
  default) raise \<^verbatim>\<open>RangeError\<close> when the four bytes do not lie inside the buffer;
  \<^verbatim>\<open>Uint8Array.prototype.set(source, offset)\<close> raises it when the source does not fit;
  \<^verbatim>\<open>Uint8Array.prototype.slice(start, end)\<close> clamps both ends to the buffer.
\<close>

definition u32be :: "nat \<Rightarrow> u8 list" where
  "u32be v = [of_nat (v div 2 ^ 24), of_nat (v div 2 ^ 16), of_nat (v div 2 ^ 8), of_nat v]"

definition setUint32 :: "u8 list \<Rightarrow> nat \<Rightarrow> nat \<Rightarrow> error + u8 list" where
  "setUint32 buf off v =
     (if off + 4 > length buf then Inl RangeError
      else Inr (take off buf @ u32be v @ drop (off + 4) buf))"

definition getUint32 :: "u8 list \<Rightarrow> nat \<Rightarrow> error + nat" where
  "getUint32 buf off =
     (if off + 4 > length buf then Inl RangeError
      else Inr (unat (buf ! off) * 2 ^ 24 + unat (buf ! (off + 1)) * 2 ^ 16
                + unat (buf ! (off + 2)) * 2 ^ 8 + unat (buf ! (off + 3))))"

definition Uint8Array_set :: "u8 list \<Rightarrow> u8 list \<Rightarrow> nat \<Rightarrow> error + u8 list" where
  "Uint8Array_set target source off =
     (if off + length source > length target then Inl RangeError
      else Inr (take off target @ source @ drop (off + length source) target))"

definition slice :: "u8 list \<Rightarrow> nat \<Rightarrow> nat \<Rightarrow> u8 list" where
  "slice buf start fin = take (fin - start) (drop start buf)"

text \<open>
  The payload of \<^verbatim>\<open>embedDataInImage\<close>:
  \<^verbatim>\<open>[encrypted_data_length][encrypted_data][iv][salt][hash_length][hash]\<close>, built in a
  buffer of \<^verbatim>\<open>4 + encryptedDataLength + 12 + 16 + 4 + hashLength\<close> bytes with a running
  offset. \<^verbatim>\<open>TextEncoder\<close> is the platform's; it is the parameter \<open>encode\<close>.
\<close>

definition buildPayload :: "(jsstring \<Rightarrow> u8 list) \<Rightarrow> EncryptionResult \<Rightarrow> error + u8 list" where
  "buildPayload encode er =
     (let encryptedDataLength = length (encryptedData er);
          hashBytes = encode (hash er);
          hashLength = length hashBytes;
          payload = replicate (4 + encryptedDataLength + 12 + 16 + 4 + hashLength) 0;
          offset = 0
      in bindE (setUint32 payload offset encryptedDataLength) (\<lambda>payload.
         let offset = offset + 4 in
         bindE (Uint8Array_set payload (encryptedData er) offset) (\<lambda>payload.
         let offset = offset + encryptedDataLength in
         bindE (Uint8Array_set payload (iv er) offset) (\<lambda>payload.
         let offset = offset + 12 in
         bindE (Uint8Array_set payload (salt er) offset) (\<lambda>payload.
         let offset = offset + 16 in
         bindE (setUint32 payload offset hashLength) (\<lambda>payload.
         let offset = offset + 4 in
         Uint8Array_set payload hashBytes offset))))))"

text \<open>
  The length header: the bits of the four bytes
  \<^verbatim>\<open>(totalLength >> 24) & 0xFF, (totalLength >> 16) & 0xFF, (totalLength >> 8) & 0xFF,
  totalLength & 0xFF\<close>. The shift \<^verbatim>\<open>>>\<close> is the signed shift of the 32-bit value.
\<close>

definition lengthHeader :: "nat \<Rightarrow> u8 list" where
  "lengthHeader totalLength =
     (let t = (of_nat totalLength :: 32 word)
      in dataToBits [ucast (signed_drop_bit 24 t AND 0xFF), ucast (signed_drop_bit 16 t AND 0xFF),
                     ucast (signed_drop_bit 8 t AND 0xFF), ucast (t AND 0xFF)])"

section \<open>Embedding\<close>

text \<open>
  The write loop of \<^verbatim>\<open>embedDataInImage\<close>: bit \<open>i\<close> goes to channel \<open>i mod 3\<close> of pixel
  \<open>positions[i]\<close>. An index outside \<open>positions\<close> reads \<^verbatim>\<open>undefined\<close>, which makes the
  pixel index \<^verbatim>\<open>NaN\<close> and the assignment a no-op; an assignment outside the pixel buffer
  is a no-op as well, which is what a list update outside the list is.
\<close>

definition embedBits :: "nat list \<Rightarrow> u8 list \<Rightarrow> u8 list \<Rightarrow> u8 list" where
  "embedBits positions allBits pixels =
     fold (\<lambda>i px.
             if i < length positions then
               (let pixelIndex = positions ! i;
                    pixelStart = pixelIndex * 4;
                    channel = i mod 3
                in px[pixelStart + channel := embedBit (px ! (pixelStart + channel)) (allBits ! i)])
             else px)
          [0..<length allBits] pixels"

text \<open>
  \<^verbatim>\<open>embedDataInImage\<close> between reading the canvas pixels and writing them back. Decoding
  the file into the canvas and encoding the canvas as PNG are the browser's.
  \<open>None\<close>: the call does not return; \<open>Some (Inl e)\<close>: \<^verbatim>\<open>{ success: false }\<close>;
  \<open>Some (Inr img)\<close>: the pixels handed to \<^verbatim>\<open>putImageData\<close>.
\<close>

definition embedDataInImage ::
  "(jsstring \<Rightarrow> u8 list) \<Rightarrow> ImageData \<Rightarrow> EncryptionResult \<Rightarrow> jsstring \<Rightarrow> (error + ImageData) option" where
  "embedDataInImage encode img er password =
     (case buildPayload encode er of
        Inl e \<Rightarrow> Some (Inl e)
      | Inr payload \<Rightarrow>
          (case generatePixelPositions (width img) (height img) (length payload) password of
             None \<Rightarrow> None
           | Some (Inl e) \<Rightarrow> Some (Inl e)
           | Some (Inr positions) \<Rightarrow>
               (let payloadBits = dataToBits payload;
                    totalLength = length payload;
                    lengthBits = lengthHeader totalLength;
                    allBits = lengthBits @ payloadBits
                in Some (Inr (img\<lparr>data := embedBits positions allBits (data img)\<rparr>)))))"

section \<open>Extraction\<close>

text \<open>
  The two read loops of \<^verbatim>\<open>extractDataFromImage\<close>, for bit indices \<open>lo \<le> i < hi\<close>. A read
  outside \<open>positions\<close> or outside the pixel buffer gives \<^verbatim>\<open>undefined\<close>, and
  \<^verbatim>\<open>undefined & 1\<close> is 0.
\<close>

definition readBits :: "nat list \<Rightarrow> u8 list \<Rightarrow> nat \<Rightarrow> nat \<Rightarrow> u8 list" where
  "readBits positions pixels lo hi =
     map (\<lambda>i. if i < length positions \<and> positions ! i * 4 + i mod 3 < length pixels
              then extractBit (pixels ! (positions ! i * 4 + i mod 3))
              else 0)
         [lo..<hi]"

text \<open>
  Parsing the recovered payload (the part of \<^verbatim>\<open>extractDataFromImage\<close> after
  \<^verbatim>\<open>// Parse payload\<close>). \<^verbatim>\<open>TextDecoder\<close> is the parameter \<open>decode\<close>.
\<close>

definition parsePayload :: "(u8 list \<Rightarrow> jsstring) \<Rightarrow> u8 list \<Rightarrow> error + EncryptionResult" where
  "parsePayload decode payload =
     (let offset = 0
      in bindE (getUint32 payload offset) (\<lambda>encryptedDataLength.
         let offset = offset + 4;
             encryptedData' = slice payload offset (offset + encryptedDataLength);
             offset = offset + encryptedDataLength;
             iv' = slice payload offset (offset + 12);
             offset = offset + 12;
             salt' = slice payload offset (offset + 16);
             offset = offset + 16
         in bindE (getUint32 payload offset) (\<lambda>hashLength.
            let offset = offset + 4;
                hashBytes = slice payload offset (offset + hashLength)
            in Inr \<lparr>encryptedData = encryptedData', iv = iv', salt = salt',
                     hash = decode hashBytes\<rparr>)))"

definition extractDataFromImage ::
  "(u8 list \<Rightarrow> jsstring) \<Rightarrow> ImageData \<Rightarrow> jsstring \<Rightarrow> (error + EncryptionResult) option" where
  "extractDataFromImage decode img password =
     (case generatePixelPositions (width img) (height img) 4 password of
        None \<Rightarrow> None
      | Some (Inl e) \<Rightarrow> Some (Inl e)
      | Some (Inr ps) \<Rightarrow>
          (let lengthPositions = take 32 ps;
               lengthBits = readBits lengthPositions (data img) 0 32;
               lengthBytes = bitsToData lengthBits
           in case getUint32 lengthBytes 0 of
                Inl e \<Rightarrow> Some (Inl e)
              | Inr totalLength \<Rightarrow>
                  (case generatePixelPositions (width img) (height img) totalLength password of
                     None \<Rightarrow> None
                   | Some (Inl e) \<Rightarrow> Some (Inl e)
                   | Some (Inr positions) \<Rightarrow>
                       (let payloadBits = readBits positions (data img) 32 (32 + totalLength * 8);
                            payload = bitsToData payloadBits
                        in Some (parsePayload decode payload)))))"

section \<open>Cryptographic operations\<close>

text \<open>
  \<^verbatim>\<open>lib/crypto.ts\<close> calls the Web Crypto API (\<^verbatim>\<open>crypto.subtle\<close>) and the text codecs of
  the platform. They are not code of the repository; the functions below take them as a
  record of parameters: PBKDF2 (100000 rounds of HMAC-SHA-256, producing an AES-256 key)
  from password bytes and salt; AES-GCM encryption and decryption under a key and a nonce,
  where a decryption that raises \<^verbatim>\<open>OperationError\<close> is \<open>None\<close>; SHA-256; \<^verbatim>\<open>TextEncoder\<close> and
  \<^verbatim>\<open>TextDecoder\<close>.
\<close>

record 'k WebCrypto =
  pbkdf2 :: "u8 list \<Rightarrow> u8 list \<Rightarrow> 'k"
  aesGcmEncrypt :: "'k \<Rightarrow> u8 list \<Rightarrow> u8 list \<Rightarrow> u8 list"
  aesGcmDecrypt :: "'k \<Rightarrow> u8 list \<Rightarrow> u8 list \<Rightarrow> u8 list option"
  sha256 :: "u8 list \<Rightarrow> u8 list"
  textEncode :: "jsstring \<Rightarrow> u8 list"
  textDecode :: "u8 list \<Rightarrow> jsstring"

text \<open>
  \<^verbatim>\<open>DecryptionResult\<close>. Its third field is called \<^verbatim>\<open>hash\<close> in the source, a name taken
  here by the field of \<^verbatim>\<open>EncryptionResult\<close>.
\<close>

record DecryptionResult =
  decryptedMessage :: jsstring
  isValid :: bool
  hash' :: jsstring

definition deriveKey :: "'k WebCrypto \<Rightarrow> jsstring \<Rightarrow> u8 list \<Rightarrow> 'k" where
  "deriveKey pf password salt0 = pbkdf2 pf (textEncode pf password) salt0"

text \<open>\<^verbatim>\<open>b.toString(16).padStart(2, '0')\<close>: two lower-case hexadecimal digits.\<close>

definition hexDigit :: "nat \<Rightarrow> 16 word" where
  "hexDigit d = (if d < 10 then of_nat (48 + d) else of_nat (87 + d))"

definition byteToHex :: "u8 \<Rightarrow> jsstring" where
  "byteToHex b = [hexDigit (unat b div 16), hexDigit (unat b mod 16)]"

definition generateHash :: "'k WebCrypto \<Rightarrow> jsstring \<Rightarrow> jsstring" where
  "generateHash pf message = concat (map byteToHex (sha256 pf (textEncode pf message)))"

text \<open>
  \<^verbatim>\<open>encryptMessage\<close>. The salt and the nonce come from \<^verbatim>\<open>crypto.getRandomValues\<close>; they
  are arguments here.
\<close>

definition encryptMessage ::
  "'k WebCrypto \<Rightarrow> jsstring \<Rightarrow> jsstring \<Rightarrow> u8 list \<Rightarrow> u8 list \<Rightarrow> EncryptionResult" where
  "encryptMessage pf message password salt0 iv0 =
     (let key = deriveKey pf password salt0;
          hash0 = generateHash pf message;
          encodedMessage = textEncode pf message;
          encryptedData0 = aesGcmEncrypt pf key iv0 encodedMessage
      in \<lparr>encryptedData = encryptedData0, iv = iv0, salt = salt0, hash = hash0\<rparr>)"

text \<open>
  \<^verbatim>\<open>decryptMessage\<close>: the \<^verbatim>\<open>catch\<close> turns a failed decryption into the empty message with
  \<^verbatim>\<open>isValid: false\<close>.
\<close>

definition decryptMessage ::
  "'k WebCrypto \<Rightarrow> u8 list \<Rightarrow> u8 list \<Rightarrow> u8 list \<Rightarrow> jsstring \<Rightarrow> jsstring \<Rightarrow> DecryptionResult" where
  "decryptMessage pf encryptedData0 iv0 salt0 password expectedHash =
     (let key = deriveKey pf password salt0
      in case aesGcmDecrypt pf key iv0 encryptedData0 of
           None \<Rightarrow> \<lparr>decryptedMessage = [], isValid = False, hash' = []\<rparr>
         | Some decryptedBuffer \<Rightarrow>
             (let decryptedMessage0 = textDecode pf decryptedBuffer;
                  actualHash = generateHash pf decryptedMessage0
              in \<lparr>decryptedMessage = decryptedMessage0, isValid = (actualHash = expectedHash),
                   hash' = actualHash\<rparr>))"

text \<open>
  The extraction workflow of the page (\<^verbatim>\<open>handleExtractMessage\<close>), as far as it decides
  what the user is shown: \<open>Shown message verified\<close> is \<^verbatim>\<open>setExtractedMessage\<close> with the
  status \<^verbatim>\<open>verified\<close> or \<^verbatim>\<open>success\<close>; \<open>Failed\<close> is every path that ends in an error toast
  (no password, \<^verbatim>\<open>success: false\<close> from extraction, an empty decrypted message).
\<close>

datatype outcome = Failed | Shown jsstring bool

definition handleExtractMessage :: "'k WebCrypto \<Rightarrow> ImageData \<Rightarrow> jsstring \<Rightarrow> outcome option" where
  "handleExtractMessage pf extractImage extractPassword =
     (if extractPassword = [] then Some Failed
      else case extractDataFromImage (textDecode pf) extractImage extractPassword of
             None \<Rightarrow> None
           | Some (Inl e) \<Rightarrow> Some Failed
           | Some (Inr extractionResult) \<Rightarrow>
               (let decryptionResult =
                      decryptMessage pf (encryptedData extractionResult) (iv extractionResult)
                        (salt extractionResult) extractPassword (hash extractionResult)
                in if decryptedMessage decryptionResult \<noteq> []
                   then Some (Shown (decryptedMessage decryptionResult) (isValid decryptionResult))
                   else Some Failed))"

section \<open>Auxiliary notions for the proofs\<close>

text \<open>The state transition of the generator, and the position drawn from a state.\<close>

definition lcg :: "nat \<Rightarrow> nat" where
  "lcg s = (s * 1664525 + 1013904223) mod 2 ^ 32"

definition posOf :: "nat \<Rightarrow> nat \<Rightarrow> nat" where
  "posOf totalPixels s = fl53 (s * totalPixels) div 2 ^ 32"

text \<open>The positions the generator can draw at all: one for each of its \<open>2^32\<close> states.\<close>

definition drawable :: "nat \<Rightarrow> nat set" where
  "drawable totalPixels = posOf totalPixels ` {..<2 ^ 32}"

text \<open>The geometric sum \<open>1 + a + \<dots> + a^(n-1)\<close>.\<close>

fun geo :: "nat \<Rightarrow> nat \<Rightarrow> nat" where
  "geo a 0 = 0"
| "geo a (Suc n) = 1 + a * geo a n"

text \<open>The byte of the pixel buffer that bit \<open>i\<close> of a schedule is written to.\<close>

definition slot :: "nat list \<Rightarrow> nat \<Rightarrow> nat" where
  "slot positions i = positions ! i * 4 + i mod 3"

text \<open>One round of the write loop, and the buffer after the first \<open>n\<close> rounds.\<close>

definition embedStep :: "nat list \<Rightarrow> u8 list \<Rightarrow> nat \<Rightarrow> u8 list \<Rightarrow> u8 list" where
  "embedStep positions allBits i px =
     (if i < length positions
      then px[slot positions i := embedBit (px ! slot positions i) (allBits ! i)]
      else px)"

definition embedded :: "nat list \<Rightarrow> u8 list \<Rightarrow> u8 list \<Rightarrow> nat \<Rightarrow> u8 list" where
  "embedded positions allBits pixels n = fold (embedStep positions allBits) [0..<n] pixels"

text \<open>A \<^verbatim>\<open>TextEncoder\<close> and \<^verbatim>\<open>TextDecoder\<close> on ASCII strings, for concrete evaluations.\<close>

definition ascii_encode :: "jsstring \<Rightarrow> u8 list" where
  "ascii_encode s = map ucast s"

definition ascii_decode :: "u8 list \<Rightarrow> jsstring" where
  "ascii_decode bs = map ucast bs"

text \<open>
  The schedule of a 100 x 100 image for a 4-byte payload under the password \<^verbatim>\<open>"Aa"\<close>
  (code units 0x41, 0x61), for concrete evaluations.
\<close>

definition password_Aa :: jsstring where
  "password_Aa = [0x41, 0x61]"

definition schedule_Aa :: "nat list" where
  "schedule_Aa =
     [545, 8449, 9234, 8464, 9608, 7871, 6939, 5550, 9141, 9130, 652, 608,
      7447, 1239, 2326, 9078, 1694, 4147, 9938, 5255, 1005, 2362, 9317,
      6974, 9564, 3704, 7621, 6750, 8626, 8969, 3622, 6404, 8866, 777,
      2450, 4712, 6938, 2393, 4962, 94, 2681, 9803, 4380, 2889, 5867,
      2819, 5367, 4239, 3884, 3501, 3186, 1121, 4288, 2671, 3105, 9540,
      8602, 7810, 2703, 444, 6290, 8107, 2229, 5362]"

text \<open>The password \<^verbatim>\<open>"01KKK99B"\<close>, for a concrete evaluation in a large image.\<close>

definition password_01K :: jsstring where
  "password_01K = [0x30, 0x31, 0x4B, 0x4B, 0x4B, 0x39, 0x39, 0x42]"

text \<open>
  A small \<^verbatim>\<open>EncryptionResult\<close> (3 ciphertext bytes, 12-byte IV, 16-byte salt, the hash
  string \<^verbatim>\<open>"ab"\<close>) and the payload built from it, for concrete evaluations.
\<close>

definition er_example :: EncryptionResult where
  "er_example = \<lparr>encryptedData = [1, 2, 3], iv = replicate 12 7, salt = replicate 16 9,
                  hash = [0x61, 0x62]\<rparr>"

definition payload_example :: "u8 list" where
  "payload_example =
     [0, 0, 0, 3] @ [1, 2, 3] @ replicate 12 7 @ replicate 16 9 @ [0, 0, 0, 2] @ [0x61, 0x62]"

text \<open>A white, opaque 100 x 100 cover image, for concrete evaluations.\<close>

definition img_example :: ImageData where
  "img_example = \<lparr>width = 100, height = 100, data = replicate 40000 0xFF\<rparr>"

text \<open>
  What \<^verbatim>\<open>encryptMessage\<close> hands over for a 2-byte message: 18 bytes of AES-GCM output
  (message and 16-byte tag), IV, salt and the 64 hex digits of a SHA-256 hash; and an opaque
  white 20 x 20 cover image.
\<close>

definition er_two_bytes :: EncryptionResult where
  "er_two_bytes = \<lparr>encryptedData = replicate 18 0xAB, iv = replicate 12 7,
                    salt = replicate 16 9, hash = replicate 64 0x61\<rparr>"

definition img_small :: ImageData where
  "img_small = \<lparr>width = 20, height = 20, data = replicate 1600 0xFF\<rparr>"

text \<open>
  Two malformed payloads of 38 bytes. In the first the ciphertext length field says 40
  where 34 bytes remain; in the second the ciphertext is empty, IV and salt are zero, and
  the hash length field says 5 where 2 bytes remain.
\<close>

definition payload_long_ciphertext :: "u8 list" where
  "payload_long_ciphertext =
     [0, 0, 0, 40,
      0, 0, 0, 0, 0, 0, 0, 0, 0, 0, 0, 0, 0, 0, 0, 0, 0, 0, 0, 0, 0, 0, 0, 0, 0, 0, 0, 0,
      0, 0, 0, 5, 1, 2]"

definition payload_short_hash :: "u8 list" where
  "payload_short_hash =
     [0, 0, 0, 0,
      0, 0, 0, 0, 0, 0, 0, 0, 0, 0, 0, 0,
      0, 0, 0, 0, 0, 0, 0, 0, 0, 0, 0, 0, 0, 0, 0, 0,
      0, 0, 0, 5, 1, 2]"

text \<open>
  A stand-in for the platform, with the properties of the real primitives that the
  evaluations below rely on and no others. HMAC pads a key shorter than its 64-byte block
  with zero bytes before anything else is done with it, so what PBKDF2-HMAC derives is a
  function of the padded password block and the salt; the stand-in key is that pair
  itself. AES-GCM decrypts what was encrypted under the same key and nonce; the stand-in
  seals key, nonce and plaintext together and rejects every other key and nonce. SHA-256
  and the text codecs are functions; the codecs are the identity on ASCII.
\<close>

definition hmacKeyBlock :: "u8 list \<Rightarrow> u8 list" where
  "hmacKeyBlock k = k @ replicate (64 - length k) 0"

definition standin :: "(u8 list) WebCrypto" where
  "standin =
     \<lparr>pbkdf2 = (\<lambda>pw salt0. hmacKeyBlock pw @ salt0),
      aesGcmEncrypt = (\<lambda>k iv0 pt. k @ iv0 @ pt),
      aesGcmDecrypt = (\<lambda>k iv0 ct. if take (length k + length iv0) ct = k @ iv0
                                   then Some (drop (length k + length iv0) ct) else None),
      sha256 = (\<lambda>bs. take 32 (bs @ replicate 32 0)),
      textEncode = ascii_encode,
      textDecode = ascii_decode\<rparr>"

text \<open>
  The passwords \<^verbatim>\<open>"f5a5a608"\<close> and \<^verbatim>\<open>"f5a5a608\u0000"\<close>, the message \<^verbatim>\<open>"hello"\<close>, a salt and a
  nonce, and the image that embedding the message under the first password makes of the
  white cover image.
\<close>

definition password_f5 :: jsstring where
  "password_f5 = [0x66, 0x35, 0x61, 0x35, 0x61, 0x36, 0x30, 0x38]"

definition password_f5_nul :: jsstring where
  "password_f5_nul = [0x66, 0x35, 0x61, 0x35, 0x61, 0x36, 0x30, 0x38, 0]"

definition message_hello :: jsstring where
  "message_hello = [0x68, 0x65, 0x6C, 0x6C, 0x6F]"

definition salt_example :: "u8 list" where
  "salt_example = replicate 16 9"

definition iv_example :: "u8 list" where
  "iv_example = replicate 12 7"

definition er_hello :: EncryptionResult where
  "er_hello = encryptMessage standin message_hello password_f5 salt_example iv_example"

definition stego_hello :: ImageData where
  "stego_hello =
     (case embedDataInImage (textEncode standin) img_example er_hello password_f5 of
        Some (Inr img) \<Rightarrow> img
      | _ \<Rightarrow> img_example)"

text \<open>
  The heap before any generator has been created, and the heap after one more draw from
  the generator \<open>obj\<close>.
\<close>

definition heap_empty :: heap where
  "heap_empty = \<lparr>PRNG_seed = (\<lambda>_. 0), allocated = 0\<rparr>"

definition step_heap :: "ref \<Rightarrow> heap \<Rightarrow> heap" where
  "step_heap obj \<sigma> = \<sigma>\<lparr>PRNG_seed := (PRNG_seed \<sigma>)(obj := lcg (PRNG_seed \<sigma> obj))\<rparr>"

section \<open>Code equations\<close>

declare positions_loop.simps [code]

lemma double_times_fraction: "double_times (real k / 2 ^ 32) mx = real (fl53 (k * mx)) / 2 ^ 32"
  by (simp add: double_times_def)

lemma PRNG_nextInt_lcg: "PRNG_nextInt s mx = (posOf mx (lcg s), lcg s)"
proof -
  have "\<lfloor>double_times (real (lcg s) / 2 ^ 32) mx\<rfloor> = \<lfloor>real (fl53 (lcg s * mx)) / real (2 ^ 32)\<rfloor>"
    by (simp only: double_times_fraction of_nat_power of_nat_numeral)
  also have "\<dots> = int (fl53 (lcg s * mx) div 2 ^ 32)"
    by (rule floor_divide_of_nat_eq)
  finally show ?thesis
    by (simp add: PRNG_nextInt_def PRNG_next_def Let_def lcg_def posOf_def)
qed

lemma PRNG_nextInt_code [code]:
  "PRNG_nextInt s mx =
     (let s' = (s * 1664525 + 1013904223) mod 2 ^ 32 in (fl53 (s' * mx) div 2 ^ 32, s'))"
  by (simp add: PRNG_nextInt_lcg lcg_def posOf_def Let_def)

section \<open>The bit codec\<close>

lemma byteBits_length: "length (byteBits b) = 8"
  by (simp add: byteBits_def)

lemma byteBits_nth: "r < 8 \<Longrightarrow> byteBits b ! r = drop_bit (7 - r) b AND 1"
proof -
  assume "r < 8"
  then have "r \<in> {0, 1, 2, 3, 4, 5, 6, 7}" by auto
  then show ?thesis by (auto simp: byteBits_def)
qed

lemma dataToBits_length: "length (dataToBits bytes) = 8 * length bytes"
  by (induction bytes) (simp_all add: dataToBits_def byteBits_length)

lemma dataToBits_Cons: "dataToBits (b # bytes) = byteBits b @ dataToBits bytes"
  by (simp add: dataToBits_def)

lemma dataToBits_append: "dataToBits (xs @ ys) = dataToBits xs @ dataToBits ys"
  by (simp add: dataToBits_def)

lemma dataToBits_nth:
  "j < length bytes \<Longrightarrow> r < 8 \<Longrightarrow> dataToBits bytes ! (8 * j + r) = byteBits (bytes ! j) ! r"
proof (induction bytes arbitrary: j)
  case Nil
  then show ?case by simp
next
  case (Cons b bytes)
  show ?case
  proof (cases j)
    case 0
    with Cons.prems show ?thesis
      by (simp add: dataToBits_Cons nth_append byteBits_length)
  next
    case (Suc j')
    with Cons.prems have "j' < length bytes" by simp
    from Cons.IH [OF this Cons.prems(2)] Suc show ?thesis
      by (simp add: dataToBits_Cons nth_append byteBits_length)
  qed
qed

lemma and_one_neq_zero_iff: "(x AND 1 \<noteq> 0) = bit (x :: u8) 0"
  by (simp add: and_one_eq bit_0 mod_2_eq_odd)

lemma bitsToData_step_length: "length (bitsToData_step bits i bytes) = length bytes"
  by (simp add: bitsToData_step_def Let_def)

lemma bitsToData_fold_length:
  "length (fold (bitsToData_step bits) is bytes) = length bytes"
  by (induction "is" arbitrary: bytes) (simp_all add: bitsToData_step_length)

lemma bitsToData_length: "length (bitsToData bits) = (length bits + 7) div 8"
  by (simp add: bitsToData_def bitsToData_fold_length)

lemma bitsToData_step_bit:
  assumes "j < length bytes" "k < 8"
  shows "bit (bitsToData_step bits i bytes ! j) k
           = (bit (bytes ! j) k \<or> (i = 8 * j + (7 - k) \<and> bits ! i \<noteq> 0))"
proof (cases "i div 8 = j")
  case True
  have "(7 - i mod 8 = k) = (i = 8 * j + (7 - k))"
    using True assms(2) by (auto simp: algebra_simps) presburger+
  then show ?thesis
    using True assms
    by (auto simp: bitsToData_step_def Let_def bit_or_iff bit_exp_iff)
next
  case False
  then have "i \<noteq> 8 * j + (7 - k)" using assms(2) by auto
  with False assms show ?thesis
    by (simp add: bitsToData_step_def Let_def)
qed

lemma bitsToData_fold_bit:
  assumes "j < length bytes" "k < 8"
  shows "bit (fold (bitsToData_step bits) [0..<n] bytes ! j) k
           = (bit (bytes ! j) k \<or> (8 * j + (7 - k) < n \<and> bits ! (8 * j + (7 - k)) \<noteq> 0))"
proof (induction n)
  case 0
  then show ?case by simp
next
  case (Suc n)
  have len: "j < length (fold (bitsToData_step bits) [0..<n] bytes)"
    using assms(1) by (simp add: bitsToData_fold_length)
  show ?case
    using bitsToData_step_bit [OF len assms(2), of bits n] Suc
    by (auto simp: less_Suc_eq)
qed

lemma bitsToData_bit:
  assumes "j < (length bits + 7) div 8" "k < 8"
  shows "bit (bitsToData bits ! j) k
           = (8 * j + (7 - k) < length bits \<and> bits ! (8 * j + (7 - k)) \<noteq> 0)"
  using bitsToData_fold_bit [of j "replicate ((length bits + 7) div 8) 0" k bits "length bits"] assms
  by (simp add: bitsToData_def)

lemma bitsToData_dataToBits: "bitsToData (dataToBits bytes) = bytes"
proof (rule nth_equalityI)
  show len: "length (bitsToData (dataToBits bytes)) = length bytes"
    by (simp add: bitsToData_length dataToBits_length)
  fix j
  assume "j < length (bitsToData (dataToBits bytes))"
  with len have j: "j < length bytes" by simp
  show "bitsToData (dataToBits bytes) ! j = bytes ! j"
  proof (rule bit_word_eqI)
    fix k
    assume "k < LENGTH(8)"
    then have k: "k < 8" by simp
    have j': "j < (length (dataToBits bytes) + 7) div 8"
      using j by (simp add: dataToBits_length)
    have r: "7 - k < 8" by simp
    have inb: "8 * j + (7 - k) < 8 * length bytes"
      using j k by arith
    have "bit (bitsToData (dataToBits bytes) ! j) k
            = (dataToBits bytes ! (8 * j + (7 - k)) \<noteq> 0)"
      using bitsToData_bit [OF j' k] inb by (simp add: dataToBits_length)
    also have "\<dots> = (drop_bit k (bytes ! j) AND 1 \<noteq> 0)"
      using dataToBits_nth [OF j r] byteBits_nth [OF r] k by simp
    also have "\<dots> = bit (bytes ! j) k"
      by (simp add: and_one_neq_zero_iff bit_drop_bit_eq)
    finally show "bit (bitsToData (dataToBits bytes) ! j) k = bit (bytes ! j) k" .
  qed
qed

section \<open>The generator visits every state\<close>

text \<open>
  The multiplier is 1 modulo 4 and the increment is odd, so the generator modulo \<open>2^32\<close>
  has full period: from any state every state is reached.
\<close>

lemma geo_add: "geo a (i + j) = geo a i + a ^ i * geo a j"
  by (induction i) (simp_all add: algebra_simps)

lemma geo_double: "geo a (2 * n) = geo a n * (1 + a ^ n)"
proof -
  have "geo a (2 * n) = geo a (n + n)" by (simp only: mult_2)
  also have "\<dots> = geo a n + a ^ n * geo a n" by (rule geo_add)
  finally show ?thesis by (simp add: algebra_simps)
qed

lemma geo_parity: "odd a \<Longrightarrow> odd (geo a n) = odd n"
  by (induction n) simp_all

lemma pow_mod4: "a mod 4 = (1::nat) \<Longrightarrow> a ^ n mod 4 = 1"
proof (induction n)
  case 0
  then show ?case by simp
next
  case (Suc n)
  have "a ^ Suc n mod 4 = ((a mod 4) * (a ^ n mod 4)) mod 4"
    by (simp add: mod_mult_eq)
  with Suc show ?case by simp
qed

lemma one_plus_pow: 
  assumes "a mod 4 = (1::nat)"
  shows "\<exists>q. odd q \<and> 1 + a ^ n = 2 * q"
proof -
  have "(1 + a ^ n) mod 4 = 2"
    using pow_mod4 [OF assms, of n] by presburger
  then have "odd ((1 + a ^ n) div 2) \<and> 1 + a ^ n = 2 * ((1 + a ^ n) div 2)"
    by presburger
  then show ?thesis by blast
qed

lemma geo_dvd:
  assumes a: "a mod 4 = (1::nat)"
  shows "2 ^ k dvd geo a n \<Longrightarrow> 2 ^ k dvd n"
proof (induction k arbitrary: n)
  case 0
  then show ?case by simp
next
  case (Suc k)
  have odda: "odd a" using a by presburger
  from Suc.prems have "even (geo a n)"
    by (metis dvd_trans dvd_triv_left power_Suc)
  then have "even n" using geo_parity [OF odda, of n] by simp
  then obtain e where n: "n = 2 * e" by (elim evenE)
  obtain q where q: "odd q" "1 + a ^ e = 2 * q"
    using one_plus_pow [OF a, of e] by blast
  have "geo a n = geo a e * (2 * q)"
    unfolding n geo_double q(2) ..
  then have "geo a n = 2 * (geo a e * q)" by (simp only: mult.left_commute)
  with Suc.prems have "2 * 2 ^ k dvd 2 * (geo a e * q)" by simp
  then have "2 ^ k dvd geo a e * q" by simp
  moreover have "coprime (2 ^ k) q" using q(1) by simp
  ultimately have "2 ^ k dvd geo a e"
    by (simp add: coprime_dvd_mult_left_iff)
  then have "2 ^ k dvd e" by (rule Suc.IH)
  then show ?case using n by simp
qed

lemma affine_mod: "(x mod m * a + c) mod m = (x * a + c) mod (m::nat)"
  by (metis mod_add_left_eq mod_mult_left_eq)

lemma lcg_funpow_cong:
  "((lcg ^^ n) s) mod 2 ^ 32 = (s + geo 1664525 n * (1664524 * s + 1013904223)) mod 2 ^ 32"
proof (induction n)
  case 0
  then show ?case by simp
next
  case (Suc n)
  let ?u = "1664524 * s + 1013904223"
  have "(lcg ^^ Suc n) s mod 2 ^ 32 = ((lcg ^^ n) s * 1664525 + 1013904223) mod 2 ^ 32"
    by (simp add: lcg_def)
  also have "\<dots> = (((lcg ^^ n) s mod 2 ^ 32) * 1664525 + 1013904223) mod 2 ^ 32"
    by (simp only: affine_mod)
  also have "\<dots> = (((s + geo 1664525 n * ?u) mod 2 ^ 32) * 1664525 + 1013904223) mod 2 ^ 32"
    by (simp only: Suc)
  also have "\<dots> = ((s + geo 1664525 n * ?u) * 1664525 + 1013904223) mod 2 ^ 32"
    by (simp only: affine_mod)
  also have "(s + geo 1664525 n * ?u) * 1664525 + 1013904223
               = s + geo 1664525 (Suc n) * ?u"
    by (simp add: algebra_simps)
  finally show ?case .
qed

lemma lcg_less: "lcg s < 2 ^ 32"
  by (simp add: lcg_def)

lemma lcg_funpow_less: "s < 2 ^ 32 \<Longrightarrow> (lcg ^^ n) s < 2 ^ 32"
  using lcg_less by (cases n) simp_all

lemma geo_cong_dvd:
  assumes "(s + geo 1664525 i * (1664524 * s + 1013904223)) mod 2 ^ 32
            = (s + geo 1664525 (i + d) * (1664524 * s + 1013904223)) mod 2 ^ 32"
  shows "2 ^ 32 dvd d"
proof -
  define u where "u = 1664524 * s + 1013904223"
  define M where "M = (2 ^ 32 :: nat)"
  define X where "X = s + geo 1664525 i * u"
  define Y where "Y = 1664525 ^ i * (geo 1664525 d * u)"
  have "odd u" by (simp add: u_def)
  then have cu: "coprime M u"
    unfolding M_def by (metis coprime_power_left_iff coprime_left_2_iff_odd)
  have "odd (1664525 ^ i :: nat)" by simp
  then have ca: "coprime M (1664525 ^ i)"
    unfolding M_def by (metis coprime_power_left_iff coprime_left_2_iff_odd)
  have "geo 1664525 (i + d) = geo 1664525 i + 1664525 ^ i * geo 1664525 d"
    by (rule geo_add)
  then have e2: "s + geo 1664525 (i + d) * u = X + Y"
    unfolding X_def Y_def by (simp only: algebra_simps)
  have "X mod M = (s + geo 1664525 (i + d) * u) mod M"
    using assms unfolding X_def u_def M_def .
  then have "(X + Y) mod M = X mod M"
    unfolding e2 by simp
  then have "M dvd (X + Y) - X"
    by (subst mod_eq_dvd_iff_nat [symmetric]) simp_all
  then have "M dvd 1664525 ^ i * (geo 1664525 d * u)"
    by (simp add: Y_def)
  then have "M dvd geo 1664525 d * u"
    using ca by (simp add: coprime_dvd_mult_right_iff)
  then have "M dvd geo 1664525 d"
    using cu by (simp add: coprime_dvd_mult_left_iff)
  then show ?thesis
    unfolding M_def by (rule geo_dvd [rotated]) simp
qed

lemma lcg_funpow_inj:
  assumes "s < 2 ^ 32"
  shows "inj_on (\<lambda>n. (lcg ^^ n) s) {..<2 ^ 32}"
proof (rule linorder_inj_onI)
  fix i j :: nat
  assume ij: "i < j" and i: "i \<in> {..<2 ^ 32}" and j: "j \<in> {..<2 ^ 32}"
  show "(lcg ^^ i) s \<noteq> (lcg ^^ j) s"
  proof
    assume eq: "(lcg ^^ i) s = (lcg ^^ j) s"
    obtain d where d: "j = i + d" "0 < d" using ij by (metis less_imp_add_positive)
    have "(lcg ^^ i) s mod 2 ^ 32 = (lcg ^^ (i + d)) s mod 2 ^ 32"
      using eq d by simp
    then have "2 ^ 32 dvd d"
      by (intro geo_cong_dvd [of s i d]) (simp only: lcg_funpow_cong)
    then have "2 ^ 32 \<le> d" using d(2) by (rule dvd_imp_le)
    with d j show False by simp
  qed
qed (rule linear)

lemma lcg_funpow_surj:
  assumes "s < 2 ^ 32" "t < 2 ^ 32"
  shows "\<exists>n. (lcg ^^ n) s = t"
proof -
  let ?f = "\<lambda>n. (lcg ^^ n) s"
  have sub: "?f ` {..<2 ^ 32} \<subseteq> {..<2 ^ 32}"
    using lcg_funpow_less [OF assms(1)] by auto
  have "card (?f ` {..<2 ^ 32}) = card {..<(2 ^ 32 :: nat)}"
    by (rule card_image [OF lcg_funpow_inj [OF assms(1)]])
  then have "?f ` {..<2 ^ 32} = {..<2 ^ 32}"
    using sub by (intro card_subset_eq) simp_all
  with assms(2) have "t \<in> ?f ` {..<2 ^ 32}" by simp
  then show ?thesis by auto
qed

lemma lcg_reach: 
  assumes "t < 2 ^ 32"
  shows "\<exists>n. (lcg ^^ Suc n) s = t"
proof -
  obtain n where "(lcg ^^ n) (lcg s) = t"
    using lcg_funpow_surj [OF lcg_less assms] by blast
  then have "(lcg ^^ Suc n) s = t" by (simp add: funpow_swap1)
  then show ?thesis by blast
qed

section \<open>Rounding to double precision\<close>

text \<open>
  \<open>fl53\<close> leaves a number below \<open>2^53\<close> alone, raises no number by more than the
  \<open>2^53\<close>-th part of itself, and moves no number across a multiple of \<open>2^k\<close> as long as
  the number is below \<open>2^(53+k)\<close>.
\<close>

lemma bitLength_0: "bitLength 0 = 0"
  by (simp add: bitLength.simps [of 0])

lemma bitLength_1: "bitLength (Suc 0) = Suc 0"
  by (simp add: bitLength.simps [of "Suc 0"] bitLength_0)

lemma bitLength_bounds: "0 < x \<Longrightarrow> 2 ^ (bitLength x - 1) \<le> x \<and> x < 2 ^ bitLength x"
proof (induction x rule: bitLength.induct)
  case (1 n)
  note prems = "1.prems" and IH = "1.IH"
  show ?case
  proof (cases "n div 2 = 0")
    case True
    with prems have n: "n = 1" by presburger
    show ?thesis unfolding n by (simp add: bitLength_1)
  next
    case False
    then have pos: "0 < n div 2" by simp
    have n0: "n \<noteq> 0" using prems by simp
    from IH [OF n0 pos]
    have lo: "2 ^ (bitLength (n div 2) - 1) \<le> n div 2" and hi: "n div 2 < 2 ^ bitLength (n div 2)"
      by simp_all
    have bl: "bitLength n = Suc (bitLength (n div 2))"
      using n0 by (simp add: bitLength.simps [of n])
    have b1: "0 < bitLength (n div 2)"
      using pos by (simp add: bitLength.simps [of "n div 2"])
    then obtain k where k: "bitLength (n div 2) = Suc k" by (cases "bitLength (n div 2)") simp_all
    have "2 * 2 ^ k \<le> 2 * (n div 2)" using lo k by simp
    also have "\<dots> \<le> n" by simp
    finally have "2 ^ (bitLength n - 1) \<le> n" by (simp add: bl k)
    moreover have "n < 2 * 2 ^ bitLength (n div 2)" using hi by linarith
    ultimately show ?thesis by (simp add: bl)
  qed
qed

lemma fl53_exact: "x < 2 ^ 53 \<Longrightarrow> fl53 x = x"
  by (simp add: fl53_def)

lemma fl53_cases:
  assumes x: "2 ^ 53 \<le> x" and e: "e = bitLength x - 53"
  shows "1 \<le> e" and "2 ^ (e + 52) \<le> x" and "x < 2 ^ (e + 53)"
    and "(fl53 x = (x div 2 ^ e) * 2 ^ e \<and> x mod 2 ^ e \<le> 2 ^ (e - 1))
         \<or> (fl53 x = (x div 2 ^ e + 1) * 2 ^ e \<and> 2 ^ (e - 1) \<le> x mod 2 ^ e)"
proof -
  have pos: "0 < x" using x by (cases x) simp_all
  from bitLength_bounds [OF pos]
  have lo: "2 ^ (bitLength x - 1) \<le> x" and hi: "x < 2 ^ bitLength x" by simp_all
  have "(2::nat) ^ 53 < 2 ^ bitLength x" using x hi by (rule le_less_trans)
  then have b: "53 < bitLength x" by (rule power_less_imp_less_exp [rotated]) simp
  then show e1: "1 \<le> e" using e by simp
  have e52: "e + 52 = bitLength x - 1" using b e by simp
  have e53: "e + 53 = bitLength x" using b e by simp
  show "2 ^ (e + 52) \<le> x" unfolding e52 by (rule lo)
  show "x < 2 ^ (e + 53)" unfolding e53 by (rule hi)
  have nx: "\<not> x < 2 ^ 53" using x by simp
  show "(fl53 x = (x div 2 ^ e) * 2 ^ e \<and> x mod 2 ^ e \<le> 2 ^ (e - 1))
         \<or> (fl53 x = (x div 2 ^ e + 1) * 2 ^ e \<and> 2 ^ (e - 1) \<le> x mod 2 ^ e)"
    unfolding fl53_def e using nx by (auto simp: Let_def)
qed

lemma fl53_lower:
  assumes "2 ^ k dvd m" and "m \<le> x" and "x < 2 ^ (53 + k)"
  shows "m \<le> fl53 x"
proof (cases "x < 2 ^ 53")
  case True
  then show ?thesis using assms(2) by (simp add: fl53_exact)
next
  case False
  define e where "e = bitLength x - 53"
  have x: "2 ^ 53 \<le> x" using False by simp
  note c = fl53_cases [OF x e_def]
  have "(2::nat) ^ (e + 52) < 2 ^ (53 + k)" using c(2) assms(3) by (rule le_less_trans)
  then have "e \<le> k" by simp
  then have "(2::nat) ^ e dvd 2 ^ k" by (rule le_imp_power_dvd)
  then have "2 ^ e dvd m" using assms(1) by (rule dvd_trans)
  then obtain d where d: "m = 2 ^ e * d" by (elim dvdE)
  have "d * 2 ^ e \<le> x" using assms(2) d by (simp add: mult.commute)
  then have "d \<le> x div 2 ^ e" by (simp add: less_eq_div_iff_mult_less_eq)
  then have "m \<le> (x div 2 ^ e) * 2 ^ e" unfolding d by (simp add: mult.commute)
  moreover have "(x div 2 ^ e) * 2 ^ e \<le> fl53 x" using c(4) by auto
  ultimately show ?thesis by simp
qed

lemma fl53_upper:
  assumes "2 ^ k dvd y" and "x \<le> y" and "x < 2 ^ (53 + k)"
  shows "fl53 x \<le> y"
proof (cases "x < 2 ^ 53")
  case True
  then show ?thesis using assms(2) by (simp add: fl53_exact)
next
  case False
  define e where "e = bitLength x - 53"
  define q where "q = x div 2 ^ e"
  have x: "2 ^ 53 \<le> x" using False by simp
  note c = fl53_cases [OF x e_def]
  have "(2::nat) ^ (e + 52) < 2 ^ (53 + k)" using c(2) assms(3) by (rule le_less_trans)
  then have "e \<le> k" by simp
  then have "(2::nat) ^ e dvd 2 ^ k" by (rule le_imp_power_dvd)
  then have "2 ^ e dvd y" using assms(1) by (rule dvd_trans)
  then obtain d where d: "y = 2 ^ e * d" by (elim dvdE)
  have qle: "q * 2 ^ e \<le> x" unfolding q_def by simp
  from c(4) consider (down) "fl53 x = q * 2 ^ e"
    | (up) "fl53 x = (q + 1) * 2 ^ e" "2 ^ (e - 1) \<le> x mod 2 ^ e"
    unfolding q_def by blast
  then show ?thesis
  proof cases
    case down
    then show ?thesis using qle assms(2) by simp
  next
    case up
    have "0 < (2::nat) ^ (e - 1)" by simp
    then have "0 < x mod 2 ^ e" using up(2) by (rule less_le_trans)
    moreover have "x = q * 2 ^ e + x mod 2 ^ e" unfolding q_def by (rule div_mult_mod_eq [symmetric])
    ultimately have "q * 2 ^ e < x" by linarith
    also have "x \<le> d * 2 ^ e" using assms(2) d by (simp add: mult.commute)
    finally have "q < d" by simp
    then have "q + 1 \<le> d" by simp
    then have "(q + 1) * 2 ^ e \<le> d * 2 ^ e" by (rule mult_le_mono1)
    then show ?thesis using up(1) d by (simp add: mult.commute)
  qed
qed

lemma fl53_le_add:
  assumes "2 ^ 53 \<le> x"
  shows "\<exists>h. fl53 x \<le> x + h \<and> h * 2 ^ 53 \<le> x"
proof -
  define e where "e = bitLength x - 53"
  define q where "q = x div 2 ^ e"
  define h where "h = (2::nat) ^ (e - 1)"
  note c = fl53_cases [OF assms e_def]
  have hh: "2 ^ e = 2 * h" using c(1) unfolding h_def by (cases e) simp_all
  have "h * 2 ^ 53 = 2 ^ (e - 1 + 53)" unfolding h_def by (simp add: power_add)
  also have "e - 1 + 53 = e + 52" using c(1) by simp
  finally have hx: "h * 2 ^ 53 \<le> x" using c(2) by simp
  have xq: "x = q * 2 ^ e + x mod 2 ^ e" unfolding q_def by (rule div_mult_mod_eq [symmetric])
  from c(4) consider (down) "fl53 x = q * 2 ^ e"
    | (up) "fl53 x = (q + 1) * 2 ^ e" "h \<le> x mod 2 ^ e"
    unfolding q_def h_def by blast
  then have "fl53 x \<le> x + h"
  proof cases
    case down
    then show ?thesis using xq by linarith
  next
    case up
    have "fl53 x = q * 2 ^ e + 2 * h" using up(1) hh by (simp add: algebra_simps)
    then show ?thesis using xq up(2) by linarith
  qed
  with hx show ?thesis by blast
qed

text \<open>
  The position drawn from a state is a pixel index, whatever the size of the image; and
  in an image of at most \<open>2^32 - 2^11\<close> pixels every pixel index is drawn from some state.
\<close>

lemma posOf_less:
  assumes T: "0 < T" and s: "s < 2 ^ 32"
  shows "posOf T s < T"
proof -
  define M where "M = (2 ^ 32 :: nat)"
  have sT: "s * T + T \<le> M * T"
  proof -
    have "Suc s \<le> M" using s by (simp add: M_def)
    then have "Suc s * T \<le> M * T" by (rule mult_le_mono1)
    then show ?thesis by (simp add: add.commute)
  qed
  have "fl53 (s * T) < T * M"
  proof (cases "s * T < 2 ^ 53")
    case True
    then have "fl53 (s * T) = s * T" by (rule fl53_exact)
    moreover have "s * T < M * T" using sT T by linarith
    then have "s * T < T * M" by (simp only: mult.commute)
    ultimately show ?thesis by simp
  next
    case False
    then have "2 ^ 53 \<le> s * T" by simp
    then obtain h where h: "fl53 (s * T) \<le> s * T + h" "h * 2 ^ 53 \<le> s * T"
      using fl53_le_add by blast
    have "h * 2 ^ 53 < M * T" using h(2) sT T by linarith
    also have "M * T \<le> 2 ^ 53 * T" by (simp add: M_def)
    finally have "h < T" by (simp add: mult.commute)
    then show ?thesis using h(1) sT by (simp add: mult.commute)
  qed
  then show ?thesis
    unfolding posOf_def M_def by (simp add: div_less_iff_less_mult)
qed

lemma posOf_hit:
  assumes T: "T \<le> 2 ^ 32 - 2 ^ 11" and p: "p < T"
  shows "\<exists>s < 2 ^ 32. posOf T s = p"
proof -
  define M where "M = (2 ^ 32 :: nat)"
  define x where "x = p * M + (T - 1)"
  define s where "s = x div T"
  define y where "y = p * M + (M - 2 ^ 11)"
  have Tpos: "0 < T" using p by simp
  have Mpos: "0 < M" by (simp add: M_def)
  have TM: "T \<le> M - 2 ^ 11" using T by (simp add: M_def)
  have le: "s * T \<le> x" unfolding s_def by (rule div_times_less_eq_dividend)
  have "x < T + s * T" unfolding s_def using Tpos by (rule dividend_less_div_times)
  then have lo: "p * M \<le> s * T" unfolding x_def using Tpos by simp
  have hi: "s * T \<le> y" using le TM unfolding x_def y_def by simp
  have yM: "y < (p + 1) * M" unfolding y_def by (simp add: M_def)
  have "s * T < (p + 1) * M" using hi yM by (rule le_less_trans)
  also have "(p + 1) * M \<le> T * M" using p by (intro mult_le_mono1) simp
  finally have "s * T < M * T" by (simp only: mult.commute [of T M])
  then have sM: "s < M" by (simp only: mult_less_cancel2)
  have "s * T < M * M"
  proof -
    have "s * T \<le> M * T" using sM by (intro mult_le_mono1) simp
    also have "\<dots> < M * M" using TM Mpos by (simp add: M_def)
    finally show ?thesis .
  qed
  then have small: "s * T < 2 ^ (53 + 11)" by (simp add: M_def)
  have d1: "2 ^ 11 dvd p * M" by (simp add: M_def)
  have "2 ^ 11 dvd M - 2 ^ 11" by (simp add: M_def)
  then have d2: "2 ^ 11 dvd y" unfolding y_def using d1 by (rule dvd_add [rotated])
  have "p * M \<le> fl53 (s * T)" using d1 lo small by (rule fl53_lower)
  moreover have "fl53 (s * T) \<le> y" using d2 hi small by (rule fl53_upper)
  ultimately have "p \<le> fl53 (s * T) div M" "fl53 (s * T) div M < p + 1"
    using yM Mpos by (simp_all add: less_eq_div_iff_mult_less_eq div_less_iff_less_mult)
  then have "posOf T s = p" by (simp add: posOf_def M_def)
  with sM show ?thesis unfolding M_def by blast
qed

section \<open>The scheduling loop: properties of a result\<close>

lemma positions_loop_unfold:
  "positions_loop T need st ps used =
     (if length ps < need then
        (if posOf T (lcg st) \<notin> used
         then if length ps = 2 ^ 32 - 1 then Some (Inl RangeError)
              else positions_loop T need (lcg st) (ps @ [posOf T (lcg st)])
                     (insert (posOf T (lcg st)) used)
         else positions_loop T need (lcg st) ps used)
      else Some (Inr ps))"
  by (subst positions_loop.simps) (simp add: PRNG_nextInt_lcg)

lemma positions_loop_full:
  assumes "length ps = 2 ^ 32 - 1" and "length ps < need" and "posOf T (lcg st) \<notin> used"
  shows "positions_loop T need st ps used = Some (Inl RangeError)"
  using assms by (subst positions_loop_unfold) simp

text \<open>Induction over the rounds of a loop that ends, with whatever outcome.\<close>

lemma positions_loop_outcome_induct [consumes 1, case_names stop full fresh stale]:
  assumes major: "positions_loop T need st ps used = Some res"
    and stop: "\<And>T need st ps used. \<not> length ps < need \<Longrightarrow> P T need st ps used (Inr ps)"
    and full: "\<And>T need st ps used.
                  \<lbrakk>length ps < need; posOf T (lcg st) \<notin> used; length ps = 2 ^ 32 - 1\<rbrakk>
                  \<Longrightarrow> P T need st ps used (Inl RangeError)"
    and fresh: "\<And>T need st ps used res.
                  \<lbrakk>length ps < need; posOf T (lcg st) \<notin> used; length ps \<noteq> 2 ^ 32 - 1;
                   positions_loop T need (lcg st) (ps @ [posOf T (lcg st)])
                     (insert (posOf T (lcg st)) used) = Some res;
                   P T need (lcg st) (ps @ [posOf T (lcg st)]) (insert (posOf T (lcg st)) used) res\<rbrakk>
                  \<Longrightarrow> P T need st ps used res"
    and stale: "\<And>T need st ps used res.
                  \<lbrakk>length ps < need; posOf T (lcg st) \<in> used;
                   positions_loop T need (lcg st) ps used = Some res;
                   P T need (lcg st) ps used res\<rbrakk>
                  \<Longrightarrow> P T need st ps used res"
  shows "P T need st ps used res"
proof -
  let ?Q = "\<lambda>T need st ps used res.
              positions_loop T need st ps used = Some res \<and> P T need st ps used res"
  have "?Q T need st ps used res"
  proof (rule positions_loop.raw_induct [where P = ?Q, OF _ major])
    fix loop T need st ps used res
    assume IH: "\<And>T need st ps used res.
                  loop T need st ps used = Some res \<Longrightarrow> ?Q T need st ps used res"
      and body: "(if length ps < need
                  then case PRNG_nextInt st T of
                         (pos, prng') \<Rightarrow>
                           if pos \<notin> used
                           then if length ps = 2 ^ 32 - 1 then Some (Inl RangeError)
                                else loop T need prng' (ps @ [pos]) (insert pos used)
                           else loop T need prng' ps used
                  else Some (Inr ps)) = Some res"
    show "?Q T need st ps used res"
    proof (cases "length ps < need")
      case False
      with body have r: "res = Inr ps" by simp
      have "P T need st ps used (Inr ps)" using False by (rule stop)
      moreover have "positions_loop T need st ps used = Some (Inr ps)"
        using False by (subst positions_loop_unfold) simp
      ultimately show ?thesis using r by simp
    next
      case True
      show ?thesis
      proof (cases "posOf T (lcg st) \<in> used")
        case in_used: True
        with True body have "loop T need (lcg st) ps used = Some res"
          by (simp add: PRNG_nextInt_lcg)
        then have Q: "?Q T need (lcg st) ps used res" by (rule IH)
        then have q1: "positions_loop T need (lcg st) ps used = Some res"
          and q2: "P T need (lcg st) ps used res" by simp_all
        have "P T need st ps used res"
          using True in_used q1 q2 by (rule stale)
        moreover have "positions_loop T need st ps used = Some res"
          using q1 True in_used by (subst positions_loop_unfold) simp
        ultimately show ?thesis by simp
      next
        case not_used: False
        show ?thesis
        proof (cases "length ps = 2 ^ 32 - 1")
          case at_limit: True
          with True not_used body have r: "res = Inl RangeError"
            by (simp add: PRNG_nextInt_lcg)
          have "P T need st ps used (Inl RangeError)"
            using True not_used at_limit by (rule full)
          moreover have "positions_loop T need st ps used = Some (Inl RangeError)"
            using True not_used at_limit by (subst positions_loop_unfold) simp
          ultimately show ?thesis using r by simp
        next
          case below: False
          with True not_used body have
            "loop T need (lcg st) (ps @ [posOf T (lcg st)]) (insert (posOf T (lcg st)) used)
               = Some res"
            by (simp add: PRNG_nextInt_lcg)
          then have Q: "?Q T need (lcg st) (ps @ [posOf T (lcg st)])
                          (insert (posOf T (lcg st)) used) res"
            by (rule IH)
          then have q1: "positions_loop T need (lcg st) (ps @ [posOf T (lcg st)])
                           (insert (posOf T (lcg st)) used) = Some res"
            and q2: "P T need (lcg st) (ps @ [posOf T (lcg st)])
                       (insert (posOf T (lcg st)) used) res"
            by simp_all
          have "P T need st ps used res"
            using True not_used below q1 q2 by (rule fresh)
          moreover have "positions_loop T need st ps used = Some res"
            using q1 True not_used below by (subst positions_loop_unfold) simp
          ultimately show ?thesis by simp
        qed
      qed
    qed
  qed
  then show ?thesis by simp
qed

text \<open>The same for a loop that returns an array.\<close>

lemma positions_loop_induct [consumes 1, case_names stop fresh stale]:
  assumes major: "positions_loop T need st ps used = Some (Inr r)"
    and stop: "\<And>T need st ps used. \<not> length ps < need \<Longrightarrow> P T need st ps used ps"
    and fresh: "\<And>T need st ps used r.
                  \<lbrakk>length ps < need; posOf T (lcg st) \<notin> used; length ps \<noteq> 2 ^ 32 - 1;
                   positions_loop T need (lcg st) (ps @ [posOf T (lcg st)])
                     (insert (posOf T (lcg st)) used) = Some (Inr r);
                   P T need (lcg st) (ps @ [posOf T (lcg st)]) (insert (posOf T (lcg st)) used) r\<rbrakk>
                  \<Longrightarrow> P T need st ps used r"
    and stale: "\<And>T need st ps used r.
                  \<lbrakk>length ps < need; posOf T (lcg st) \<in> used;
                   positions_loop T need (lcg st) ps used = Some (Inr r);
                   P T need (lcg st) ps used r\<rbrakk>
                  \<Longrightarrow> P T need st ps used r"
  shows "P T need st ps used r"
proof -
  let ?Q = "\<lambda>T need st ps used (res :: error + nat list).
              \<forall>r. res = Inr r \<longrightarrow> P T need st ps used r"
  have "?Q T need st ps used (Inr r)"
  proof (rule positions_loop_outcome_induct [where P = ?Q, OF major])
    fix T need st :: nat and ps :: "nat list" and used :: "nat set"
    assume "\<not> length ps < need"
    then have "P T need st ps used ps" by (rule stop)
    then show "?Q T need st ps used (Inr ps)" by simp
  next
    fix T need st :: nat and ps :: "nat list" and used :: "nat set"
    show "?Q T need st ps used (Inl RangeError)" by simp
  next
    fix T need st :: nat and ps :: "nat list" and used :: "nat set" and res :: "error + nat list"
    assume a: "length ps < need" "posOf T (lcg st) \<notin> used" "length ps \<noteq> 2 ^ 32 - 1"
      and l: "positions_loop T need (lcg st) (ps @ [posOf T (lcg st)])
                (insert (posOf T (lcg st)) used) = Some res"
      and q: "?Q T need (lcg st) (ps @ [posOf T (lcg st)]) (insert (posOf T (lcg st)) used) res"
    show "?Q T need st ps used res"
    proof (intro allI impI)
      fix r
      assume r: "res = Inr r"
      from l r have l': "positions_loop T need (lcg st) (ps @ [posOf T (lcg st)])
                          (insert (posOf T (lcg st)) used) = Some (Inr r)" by simp
      from q r have q': "P T need (lcg st) (ps @ [posOf T (lcg st)])
                          (insert (posOf T (lcg st)) used) r" by simp
      show "P T need st ps used r" using a l' q' by (rule fresh)
    qed
  next
    fix T need st :: nat and ps :: "nat list" and used :: "nat set" and res :: "error + nat list"
    assume a: "length ps < need" "posOf T (lcg st) \<in> used"
      and l: "positions_loop T need (lcg st) ps used = Some res"
      and q: "?Q T need (lcg st) ps used res"
    show "?Q T need st ps used res"
    proof (intro allI impI)
      fix r
      assume r: "res = Inr r"
      from l r have l': "positions_loop T need (lcg st) ps used = Some (Inr r)" by simp
      from q r have q': "P T need (lcg st) ps used r" by simp
      show "P T need st ps used r" using a l' q' by (rule stale)
    qed
  qed
  then show ?thesis by simp
qed

text \<open>Partial correctness: what a returned array looks like.\<close>

lemma positions_loop_prefix:
  "positions_loop T need st ps used = Some (Inr r) \<Longrightarrow> \<exists>suffix. r = ps @ suffix"
proof (induction rule: positions_loop_induct)
  case (stop T need st ps used)
  then show ?case by simp
next
  case (fresh T need st ps used r)
  then obtain suffix where "r = (ps @ [posOf T (lcg st)]) @ suffix" by blast
  then have "r = ps @ (posOf T (lcg st) # suffix)" by simp
  then show ?case by blast
next
  case (stale T need st ps used r)
  then show ?case by simp
qed

lemma positions_loop_length:
  "positions_loop T need st ps used = Some (Inr r) \<Longrightarrow> length ps \<le> need \<Longrightarrow> length r = need"
  by (induction rule: positions_loop_induct) simp_all

lemma positions_loop_distinct:
  "positions_loop T need st ps used = Some (Inr r) \<Longrightarrow> distinct ps \<Longrightarrow> used = set ps
     \<Longrightarrow> distinct r"
  by (induction rule: positions_loop_induct) simp_all

lemma positions_loop_range:
  "positions_loop T need st ps used = Some (Inr r) \<Longrightarrow> 0 < T \<Longrightarrow> set ps \<subseteq> {..<T}
     \<Longrightarrow> set r \<subseteq> {..<T}"
proof (induction rule: positions_loop_induct)
  case (fresh T need st ps used r)
  have "posOf T (lcg st) < T" using fresh.prems(1) lcg_less by (rule posOf_less)
  with fresh show ?case by simp
qed simp_all

lemma positions_loop_stable:
  "positions_loop T need st ps used = Some (Inr r) \<Longrightarrow> length ps \<le> m \<Longrightarrow> m \<le> need
     \<Longrightarrow> positions_loop T m st ps used = Some (Inr (take m r))"
proof (induction rule: positions_loop_induct)
  case (stop T need st ps used)
  then show ?case by (subst positions_loop_unfold) simp
next
  case (fresh T need st ps used r)
  show ?case
  proof (cases "length ps < m")
    case True
    with fresh show ?thesis by (subst positions_loop_unfold) simp
  next
    case False
    with fresh.prems have m: "m = length ps" by simp
    obtain suffix where "r = (ps @ [posOf T (lcg st)]) @ suffix"
      using positions_loop_prefix [OF fresh.hyps(4)] by blast
    with m show ?thesis by (subst positions_loop_unfold) simp
  qed
next
  case (stale T need st ps used r)
  show ?case
  proof (cases "length ps < m")
    case True
    with stale show ?thesis by (subst positions_loop_unfold) simp
  next
    case False
    with stale.prems have m: "m = length ps" by simp
    obtain suffix where "r = ps @ suffix"
      using positions_loop_prefix [OF stale.hyps(3)] by blast
    with m show ?thesis by (subst positions_loop_unfold) simp
  qed
qed

section \<open>The scheduling loop: when it returns\<close>

lemma drawable_finite: "finite (drawable T)"
  by (simp add: drawable_def)

lemma drawable_card_le: "card (drawable T) \<le> 2 ^ 32"
proof -
  have "card (posOf T ` {..<2 ^ 32}) \<le> card {..<(2 ^ 32 :: nat)}"
    by (rule card_image_le) simp
  then show ?thesis by (simp add: drawable_def)
qed

lemma posOf_lcg_drawable: "posOf T (lcg st) \<in> drawable T"
  unfolding drawable_def using lcg_less [of st] by blast

lemma drawable_subset: "0 < T \<Longrightarrow> drawable T \<subseteq> {..<T}"
  unfolding drawable_def using posOf_less by auto

lemma drawable_card_le_pixels: "0 < T \<Longrightarrow> card (drawable T) \<le> T"
proof -
  assume "0 < T"
  then have "card (drawable T) \<le> card {..<T}"
    by (intro card_mono drawable_subset) simp_all
  then show ?thesis by simp
qed

lemma posOf_surj:
  assumes "T \<le> 2 ^ 32 - 2 ^ 11" and "p < T"
  shows "p \<in> drawable T"
proof -
  obtain s where "s < 2 ^ 32" "posOf T s = p"
    using posOf_hit [OF assms] by blast
  then show ?thesis unfolding drawable_def by blast
qed

lemma drawable_card_ge:
  assumes "need \<le> T" and "T \<le> 2 ^ 32 - 2 ^ 11"
  shows "need \<le> card (drawable T)"
proof -
  have "{..<T} \<subseteq> drawable T" using posOf_surj [OF assms(2)] by auto
  then have "card {..<T} \<le> card (drawable T)"
    by (intro card_mono drawable_finite)
  with assms(1) show ?thesis by simp
qed

lemma fresh_draw:
  assumes "finite used" "card used < card (drawable T)"
  shows "\<exists>n. posOf T ((lcg ^^ Suc n) st) \<notin> used"
proof -
  have "\<not> drawable T \<subseteq> used"
  proof
    assume "drawable T \<subseteq> used"
    then have "card (drawable T) \<le> card used" using assms(1) by (intro card_mono)
    with assms(2) show False by simp
  qed
  then obtain t where t: "t < 2 ^ 32" "posOf T t \<notin> used"
    unfolding drawable_def by auto
  obtain n where "(lcg ^^ Suc n) st = t"
    using lcg_reach [OF t(1)] by blast
  with t(2) show ?thesis by blast
qed

text \<open>
  Total correctness: the loop returns an array while a fresh position can still be drawn
  and the array has room for it.
\<close>

lemma positions_loop_skip:
  assumes later: "\<And>st'. \<exists>r. positions_loop T need st' (ps @ [posOf T st'])
                              (insert (posOf T st') used) = Some (Inr r)"
    and lt: "length ps < need" and room: "need \<le> 2 ^ 32 - 1"
  shows "posOf T ((lcg ^^ Suc n) st) \<notin> used
           \<Longrightarrow> \<exists>r. positions_loop T need st ps used = Some (Inr r)"
proof (induction n arbitrary: st)
  case 0
  have below: "length ps \<noteq> 2 ^ 32 - 1" using lt room by simp
  from 0 have "posOf T (lcg st) \<notin> used" by simp
  with lt below later [of "lcg st"] show ?case
    by (subst positions_loop_unfold) simp
next
  case (Suc n)
  have below: "length ps \<noteq> 2 ^ 32 - 1" using lt room by simp
  show ?case
  proof (cases "posOf T (lcg st) \<in> used")
    case False
    with lt below later [of "lcg st"] show ?thesis
      by (subst positions_loop_unfold) simp
  next
    case True
    have "(lcg ^^ Suc (Suc n)) st = (lcg ^^ Suc n) (lcg st)"
      by (simp only: funpow_swap1 funpow.simps o_apply)
    with Suc.prems have "posOf T ((lcg ^^ Suc n) (lcg st)) \<notin> used" by simp
    then have "\<exists>r. positions_loop T need (lcg st) ps used = Some (Inr r)" by (rule Suc.IH)
    with lt True show ?thesis
      by (subst positions_loop_unfold) simp
  qed
qed

lemma positions_loop_returns:
  assumes "need \<le> card (drawable T)" and room: "need \<le> 2 ^ 32 - 1"
  shows "finite used \<Longrightarrow> card used \<le> length ps
           \<Longrightarrow> \<exists>r. positions_loop T need st ps used = Some (Inr r)"
proof (induction "need - length ps" arbitrary: st ps used rule: less_induct)
  case less
  show ?case
  proof (cases "length ps < need")
    case False
    then show ?thesis by (subst positions_loop_unfold) simp
  next
    case True
    have later: "\<exists>r. positions_loop T need st' (ps @ [posOf T st']) (insert (posOf T st') used)
                       = Some (Inr r)"
      for st'
    proof (rule less.hyps)
      show "need - length (ps @ [posOf T st']) < need - length ps" using True by simp
      show "finite (insert (posOf T st') used)" using less.prems(1) by simp
      show "card (insert (posOf T st') used) \<le> length (ps @ [posOf T st'])"
        using less.prems by (simp add: card_insert_if)
    qed
    have "card used < card (drawable T)" using less.prems(2) True assms(1) by simp
    then obtain n where "posOf T ((lcg ^^ Suc n) st) \<notin> used"
      using fresh_draw [OF less.prems(1)] by blast
    with later True room show ?thesis by (rule positions_loop_skip)
  qed
qed

text \<open>
  And it never ends once every position that can be drawn has been used: neither with
  an array nor, while fewer than \<open>2^32\<close> positions can be drawn, with an exception.
\<close>

lemma positions_loop_exhausted:
  "positions_loop T need st ps used = Some res \<Longrightarrow> distinct ps \<Longrightarrow> used = set ps
     \<Longrightarrow> set ps \<subseteq> drawable T \<Longrightarrow> card (drawable T) < need \<Longrightarrow> card (drawable T) < 2 ^ 32
     \<Longrightarrow> False"
proof (induction rule: positions_loop_outcome_induct)
  case (stop T need st ps used)
  have "length ps = card (set ps)" using stop.prems(1) by (simp add: distinct_card)
  also have "\<dots> \<le> card (drawable T)"
    using stop.prems(3) by (intro card_mono drawable_finite)
  finally show ?case using stop by simp
next
  case (full T need st ps used)
  let ?p = "posOf T (lcg st)"
  have "card (insert ?p (set ps)) \<le> card (drawable T)"
    using full.prems(3) posOf_lcg_drawable [of T st] by (intro card_mono drawable_finite) simp
  moreover have "card (insert ?p (set ps)) = Suc (length ps)"
    using full.hyps(2) full.prems(1,2) by (simp add: distinct_card)
  ultimately show ?case using full.hyps(3) full.prems(5) by simp
next
  case (fresh T need st ps used res)
  show ?case
  proof (rule fresh.IH)
    show "distinct (ps @ [posOf T (lcg st)])" using fresh by simp
    show "insert (posOf T (lcg st)) used = set (ps @ [posOf T (lcg st)])" using fresh by simp
    show "set (ps @ [posOf T (lcg st)]) \<subseteq> drawable T"
      using fresh.prems(3) posOf_lcg_drawable by simp
    show "card (drawable T) < need" by (rule fresh.prems(4))
    show "card (drawable T) < 2 ^ 32" by (rule fresh.prems(5))
  qed
next
  case (stale T need st ps used res)
  then show ?case by simp
qed

lemma positions_loop_diverges:
  assumes "card (drawable T) < need" and "card (drawable T) < 2 ^ 32"
  shows "positions_loop T need st [] {} = None"
proof (cases "positions_loop T need st [] {}")
  case None
  then show ?thesis .
next
  case (Some res)
  have False
    by (rule positions_loop_exhausted [OF Some _ _ _ assms]) simp_all
  then show ?thesis ..
qed

section \<open>The scheduler\<close>

lemma generatePixelPositions_capacity:
  "w * h * 3 < 32 + n * 8 \<Longrightarrow> generatePixelPositions w h n seed = Some (Inl CapacityExceeded)"
  by (simp add: generatePixelPositions_def)

lemma generatePixelPositions_Inr_iff:
  "generatePixelPositions w h n seed = Some (Inr ps)
     \<longleftrightarrow> 32 + n * 8 \<le> w * h * 3
         \<and> positions_loop (w * h) (32 + n * 8) (PRNG_new seed) [] {} = Some (Inr ps)"
  by (auto simp: generatePixelPositions_def Let_def)

lemma generatePixelPositions_returns:
  assumes "32 + n * 8 \<le> w * h" and "w * h \<le> 2 ^ 32 - 2 ^ 11"
  shows "\<exists>ps. generatePixelPositions w h n seed = Some (Inr ps)"
proof -
  have "32 + n * 8 \<le> card (drawable (w * h))"
    using assms by (rule drawable_card_ge)
  moreover have "32 + n * 8 \<le> 2 ^ 32 - 1" using assms by simp
  ultimately obtain ps where
    "positions_loop (w * h) (32 + n * 8) (PRNG_new seed) [] {} = Some (Inr ps)"
    using positions_loop_returns [of "32 + n * 8" "w * h" "{}" "[]"] by auto
  moreover have "32 + n * 8 \<le> w * h * 3" using assms(1) by simp
  ultimately show ?thesis by (auto simp: generatePixelPositions_Inr_iff)
qed

lemma generatePixelPositions_result:
  assumes "generatePixelPositions w h n seed = Some (Inr ps)"
  shows "length ps = 32 + n * 8" and "distinct ps" and "set ps \<subseteq> {..<w * h}"
proof -
  from assms have cap: "32 + n * 8 \<le> w * h * 3"
    and loop: "positions_loop (w * h) (32 + n * 8) (PRNG_new seed) [] {} = Some (Inr ps)"
    by (simp_all add: generatePixelPositions_Inr_iff)
  from cap have pos: "0 < w * h" by (cases "w * h") simp_all
  show "length ps = 32 + n * 8" using positions_loop_length [OF loop] by simp
  show "distinct ps" using positions_loop_distinct [OF loop] by simp
  show "set ps \<subseteq> {..<w * h}" using positions_loop_range [OF loop pos] by simp
qed

lemma generatePixelPositions_diverges:
  assumes "32 + n * 8 \<le> w * h * 3" and "w * h < 32 + n * 8" and "w * h < 2 ^ 32"
  shows "generatePixelPositions w h n seed = None"
proof -
  from assms(1) have pos: "0 < w * h" by (cases "w * h") simp_all
  have c: "card (drawable (w * h)) \<le> w * h" using pos by (rule drawable_card_le_pixels)
  have "card (drawable (w * h)) < 32 + n * 8" using c assms(2) by simp
  moreover have "card (drawable (w * h)) < 2 ^ 32" using c assms(3) by simp
  ultimately have "positions_loop (w * h) (32 + n * 8) (PRNG_new seed) [] {} = None"
    by (rule positions_loop_diverges)
  with assms(1) show ?thesis by (simp add: generatePixelPositions_def)
qed

lemma generatePixelPositions_prefix:
  assumes "generatePixelPositions w h n seed = Some (Inr qs)" and "m \<le> n"
  shows "generatePixelPositions w h m seed = Some (Inr (take (32 + m * 8) qs))"
proof -
  from assms(1) have cap: "32 + n * 8 \<le> w * h * 3"
    and loop: "positions_loop (w * h) (32 + n * 8) (PRNG_new seed) [] {} = Some (Inr qs)"
    by (simp_all add: generatePixelPositions_Inr_iff)
  have "positions_loop (w * h) (32 + m * 8) (PRNG_new seed) [] {}
          = Some (Inr (take (32 + m * 8) qs))"
    using assms(2) by (intro positions_loop_stable [OF loop]) simp_all
  moreover have "32 + m * 8 \<le> w * h * 3" using cap assms(2) by simp
  ultimately show ?thesis by (simp add: generatePixelPositions_Inr_iff)
qed

lemma generatePixelPositions_header:
  assumes "generatePixelPositions w h n seed = Some (Inr qs)"
    and "generatePixelPositions w h 4 seed = Some (Inr hs)"
  shows "take 32 hs = take 32 qs"
proof (cases "4 \<le> n")
  case True
  from generatePixelPositions_prefix [OF assms(1) True] assms(2)
  have "hs = take 64 qs" by simp
  then show ?thesis by simp
next
  case False
  then have "n \<le> 4" by simp
  from generatePixelPositions_prefix [OF assms(2) this] assms(1)
  have "qs = take (32 + n * 8) hs" by simp
  then have "take 32 qs = take 32 (take (32 + n * 8) hs)" by simp
  then show ?thesis by (simp add: min_def)
qed

section \<open>The scheduler in a program state\<close>

text \<open>
  Called in any heap, the scheduler has the outcome of the function on values: the heap
  it is called in is not read, only the object it creates.
\<close>

lemma step_heap_seed: "PRNG_seed (step_heap obj \<sigma>) obj = lcg (PRNG_seed \<sigma> obj)"
  by (simp add: step_heap_def)

lemma PRNG_nextInt_heap_lcg:
  "PRNG_nextInt_heap obj mx \<sigma> = (posOf mx (lcg (PRNG_seed \<sigma> obj)), step_heap obj \<sigma>)"
proof -
  have "PRNG_nextInt (PRNG_seed \<sigma> obj) mx
          = (posOf mx (lcg (PRNG_seed \<sigma> obj)), lcg (PRNG_seed \<sigma> obj))"
    by (rule PRNG_nextInt_lcg)
  then show ?thesis
    by (simp add: PRNG_nextInt_heap_def PRNG_next_heap_def PRNG_nextInt_def PRNG_next_def
        Let_def step_heap_def lcg_def)
qed

lemma positions_loop_heap_unfold:
  "positions_loop_heap T need obj ps used \<sigma> =
     (if length ps < need then
        (if posOf T (lcg (PRNG_seed \<sigma> obj)) \<notin> used
         then if length ps = 2 ^ 32 - 1 then Some (Inl RangeError, step_heap obj \<sigma>)
              else positions_loop_heap T need obj (ps @ [posOf T (lcg (PRNG_seed \<sigma> obj))])
                     (insert (posOf T (lcg (PRNG_seed \<sigma> obj))) used) (step_heap obj \<sigma>)
         else positions_loop_heap T need obj ps used (step_heap obj \<sigma>))
      else Some (Inr ps, \<sigma>))"
  by (subst positions_loop_heap.simps) (simp add: PRNG_nextInt_heap_lcg)

lemma positions_loop_heap_sound:
  assumes "positions_loop_heap T need obj ps used \<sigma> = Some y"
  shows "positions_loop T need (PRNG_seed \<sigma> obj) ps used = Some (fst y)"
proof -
  let ?Q = "\<lambda>T need obj ps used \<sigma> (y :: (error + nat list) \<times> heap).
              positions_loop T need (PRNG_seed \<sigma> obj) ps used = Some (fst y)"
  show ?thesis
  proof (rule positions_loop_heap.raw_induct [where P = ?Q, OF _ assms])
    fix loop T need obj ps used \<sigma> and y :: "(error + nat list) \<times> heap"
    assume IH: "\<And>T need obj ps used \<sigma> y. loop T need obj ps used \<sigma> = Some y
                  \<Longrightarrow> ?Q T need obj ps used \<sigma> y"
      and body: "(if length ps < need
                  then case PRNG_nextInt_heap obj T \<sigma> of
                         (pos, \<sigma>') \<Rightarrow>
                           if pos \<notin> used
                           then if length ps = 2 ^ 32 - 1 then Some (Inl RangeError, \<sigma>')
                                else loop T need obj (ps @ [pos]) (insert pos used) \<sigma>'
                           else loop T need obj ps used \<sigma>'
                  else Some (Inr ps, \<sigma>)) = Some y"
    let ?p = "posOf T (lcg (PRNG_seed \<sigma> obj))"
    show "?Q T need obj ps used \<sigma> y"
    proof (cases "length ps < need")
      case False
      with body show ?thesis by (subst positions_loop_unfold) auto
    next
      case True
      show ?thesis
      proof (cases "?p \<in> used")
        case in_used: True
        with True body have "loop T need obj ps used (step_heap obj \<sigma>) = Some y"
          by (simp add: PRNG_nextInt_heap_lcg)
        then have "?Q T need obj ps used (step_heap obj \<sigma>) y" by (rule IH)
        with True in_used show ?thesis
          by (subst positions_loop_unfold) (simp add: step_heap_seed)
      next
        case not_used: False
        show ?thesis
        proof (cases "length ps = 2 ^ 32 - 1")
          case at_limit: True
          with True not_used body show ?thesis
            by (subst positions_loop_unfold) (auto simp: PRNG_nextInt_heap_lcg)
        next
          case below: False
          with True not_used body have
            "loop T need obj (ps @ [?p]) (insert ?p used) (step_heap obj \<sigma>) = Some y"
            by (simp add: PRNG_nextInt_heap_lcg)
          then have "?Q T need obj (ps @ [?p]) (insert ?p used) (step_heap obj \<sigma>) y" by (rule IH)
          with True not_used below show ?thesis
            by (subst positions_loop_unfold) (simp add: step_heap_seed)
        qed
      qed
    qed
  qed
qed

lemma positions_loop_heap_complete:
  assumes "positions_loop T need st ps used = Some res"
  shows "PRNG_seed \<sigma> obj = st \<Longrightarrow> \<exists>\<sigma>'. positions_loop_heap T need obj ps used \<sigma> = Some (res, \<sigma>')"
  using assms
proof (induction arbitrary: \<sigma> rule: positions_loop_outcome_induct)
  case (stop T need st ps used)
  then show ?case by (subst positions_loop_heap_unfold) simp
next
  case (full T need st ps used)
  then show ?case by (subst positions_loop_heap_unfold) simp
next
  case (fresh T need st ps used res)
  have "PRNG_seed (step_heap obj \<sigma>) obj = lcg st"
    using fresh.prems by (simp add: step_heap_seed)
  then obtain \<sigma>' where
    "positions_loop_heap T need obj (ps @ [posOf T (lcg st)]) (insert (posOf T (lcg st)) used)
       (step_heap obj \<sigma>) = Some (res, \<sigma>')"
    using fresh.IH by blast
  with fresh.hyps fresh.prems show ?case
    by (subst positions_loop_heap_unfold) simp
next
  case (stale T need st ps used res)
  have "PRNG_seed (step_heap obj \<sigma>) obj = lcg st"
    using stale.prems by (simp add: step_heap_seed)
  then obtain \<sigma>' where
    "positions_loop_heap T need obj ps used (step_heap obj \<sigma>) = Some (res, \<sigma>')"
    using stale.IH by blast
  with stale.hyps stale.prems show ?case
    by (subst positions_loop_heap_unfold) simp
qed

lemma positions_loop_heap_refines:
  "map_option fst (positions_loop_heap T need obj ps used \<sigma>)
     = positions_loop T need (PRNG_seed \<sigma> obj) ps used"
proof (cases "positions_loop_heap T need obj ps used \<sigma>")
  case (Some y)
  then show ?thesis using positions_loop_heap_sound [OF Some] by simp
next
  case None
  show ?thesis
  proof (cases "positions_loop T need (PRNG_seed \<sigma> obj) ps used")
    case inner: None
    with None show ?thesis by simp
  next
    case (Some res)
    from positions_loop_heap_complete [OF Some, of \<sigma> obj] None show ?thesis by simp
  qed
qed

lemma generatePixelPositions_heap_refines:
  "map_option fst (generatePixelPositions_heap w h n seed \<sigma>) = generatePixelPositions w h n seed"
  by (simp add: generatePixelPositions_heap_def generatePixelPositions_def PRNG_constructor_def
      Let_def positions_loop_heap_refines)

section \<open>Concrete evaluations\<close>

lemma PRNG_new_Aa: "PRNG_new password_Aa = 2112"
  by (simp add: PRNG_new_def password_Aa_def)

text \<open>
  The first draw for a 4001 x 3001 image under the password \<^verbatim>\<open>"01KKK99B"\<close>: the product of
  the new seed and the pixel count has 56 bits and is rounded up across a multiple of
  \<open>2^32\<close>, so the position drawn is one more than the exact quotient.
\<close>

lemma PRNG_new_01K: "PRNG_new password_01K = 512298904"
  by (simp add: PRNG_new_def password_01K_def)

lemma PRNG_nextInt_rounds:
  "PRNG_nextInt (PRNG_new password_01K) (4001 * 3001) = (11043177, 3950202391)
   \<and> (3950202391 * (4001 * 3001)) div 2 ^ 32 = (11043176 :: nat)"
  by (simp add: PRNG_new_01K PRNG_nextInt_lcg posOf_def lcg_def fl53_def bitLength.simps Let_def)

text \<open>The schedule of the 100 x 100 image.\<close>

lemma generatePixelPositions_Aa:
  "generatePixelPositions 100 100 4 password_Aa = Some (Inr schedule_Aa)"
  unfolding schedule_Aa_def
  by (simp add: generatePixelPositions_def PRNG_new_Aa positions_loop_unfold posOf_def lcg_def
      fl53_exact)

section \<open>The payload and the length header\<close>

lemma u32be_length: "length (u32be v) = 4"
  by (simp add: u32be_def)

lemma setUint32_length: "setUint32 buf off v = Inr buf' \<Longrightarrow> length buf' = length buf"
  by (auto simp: setUint32_def u32be_length split: if_splits)

lemma Uint8Array_set_length: "Uint8Array_set buf src off = Inr buf' \<Longrightarrow> length buf' = length buf"
  by (auto simp: Uint8Array_set_def split: if_splits)

lemma bindE_Inr: "bindE r f = Inr y \<longleftrightarrow> (\<exists>x. r = Inr x \<and> f x = Inr y)"
  by (cases r) (simp_all add: bindE_def)

lemma buildPayload_length:
  assumes "buildPayload encode er = Inr payload"
  shows "length payload = 36 + length (encryptedData er) + length (encode (hash er))"
proof -
  from assms obtain p1 p2 p3 p4 p5 where
    s1: "setUint32 (replicate (4 + length (encryptedData er) + 12 + 16 + 4
                          + length (encode (hash er))) 0) 0 (length (encryptedData er)) = Inr p1"
    and s2: "Uint8Array_set p1 (encryptedData er) (0 + 4) = Inr p2"
    and s3: "Uint8Array_set p2 (iv er) (0 + 4 + length (encryptedData er)) = Inr p3"
    and s4: "Uint8Array_set p3 (salt er) (0 + 4 + length (encryptedData er) + 12) = Inr p4"
    and s5: "setUint32 p4 (0 + 4 + length (encryptedData er) + 12 + 16)
               (length (encode (hash er))) = Inr p5"
    and s6: "Uint8Array_set p5 (encode (hash er))
               (0 + 4 + length (encryptedData er) + 12 + 16 + 4) = Inr payload"
    unfolding buildPayload_def Let_def bindE_Inr by blast
  have "length payload = length p5" using s6 by (rule Uint8Array_set_length)
  also have "\<dots> = length p4" using s5 by (rule setUint32_length)
  also have "\<dots> = length p3" using s4 by (rule Uint8Array_set_length)
  also have "\<dots> = length p2" using s3 by (rule Uint8Array_set_length)
  also have "\<dots> = length p1" using s2 by (rule Uint8Array_set_length)
  also have "\<dots> = 4 + length (encryptedData er) + 12 + 16 + 4 + length (encode (hash er))"
    using setUint32_length [OF s1] by simp
  finally show ?thesis by simp
qed

lemma setUint32_block:
  "length pre = off \<Longrightarrow> length blk = 4
     \<Longrightarrow> setUint32 (pre @ blk @ rest) off v = Inr (pre @ u32be v @ rest)"
  by (simp add: setUint32_def)

lemma Uint8Array_set_block:
  "length pre = off \<Longrightarrow> length blk = length src
     \<Longrightarrow> Uint8Array_set (pre @ blk @ rest) src off = Inr (pre @ src @ rest)"
  by (simp add: Uint8Array_set_def)

lemma buildPayload_wellformed:
  assumes iv: "length (iv er) = 12" and salt: "length (salt er) = 16"
  shows "buildPayload encode er =
           Inr (u32be (length (encryptedData er)) @ encryptedData er @ iv er @ salt er
                @ u32be (length (encode (hash er))) @ encode (hash er))"
proof -
  define C where "C = length (encryptedData er)"
  define hb where "hb = encode (hash er)"
  define H where "H = length hb"
  define z :: "nat \<Rightarrow> u8 list" where "z = (\<lambda>n. replicate n 0)"
  have z_len: "length (z n) = n" for n by (simp add: z_def)
  have s0: "replicate (4 + C + 12 + 16 + 4 + H) (0 :: u8) = z 4 @ z C @ z 12 @ z 16 @ z 4 @ z H"
    unfolding z_def by (simp only: replicate_add append_assoc)
  have s1: "setUint32 (z 4 @ z C @ z 12 @ z 16 @ z 4 @ z H) 0 C
              = Inr (u32be C @ z C @ z 12 @ z 16 @ z 4 @ z H)"
    using setUint32_block [of "[]" 0 "z 4" "z C @ z 12 @ z 16 @ z 4 @ z H" C]
    by (simp add: z_len)
  have s2: "Uint8Array_set (u32be C @ z C @ z 12 @ z 16 @ z 4 @ z H) (encryptedData er) (0 + 4)
              = Inr (u32be C @ encryptedData er @ z 12 @ z 16 @ z 4 @ z H)"
    using Uint8Array_set_block [of "u32be C" "0 + 4" "z C" "encryptedData er"
        "z 12 @ z 16 @ z 4 @ z H"]
    by (simp add: z_len u32be_length C_def)
  have s3: "Uint8Array_set (u32be C @ encryptedData er @ z 12 @ z 16 @ z 4 @ z H) (iv er)
              (0 + 4 + C)
              = Inr (u32be C @ encryptedData er @ iv er @ z 16 @ z 4 @ z H)"
    using Uint8Array_set_block [of "u32be C @ encryptedData er" "0 + 4 + C" "z 12" "iv er"
        "z 16 @ z 4 @ z H"]
    by (simp add: z_len u32be_length C_def iv)
  have s4: "Uint8Array_set (u32be C @ encryptedData er @ iv er @ z 16 @ z 4 @ z H) (salt er)
              (0 + 4 + C + 12)
              = Inr (u32be C @ encryptedData er @ iv er @ salt er @ z 4 @ z H)"
    using Uint8Array_set_block [of "u32be C @ encryptedData er @ iv er" "0 + 4 + C + 12" "z 16"
        "salt er" "z 4 @ z H"]
    by (simp add: z_len u32be_length C_def iv salt)
  have s5: "setUint32 (u32be C @ encryptedData er @ iv er @ salt er @ z 4 @ z H)
              (0 + 4 + C + 12 + 16) H
              = Inr (u32be C @ encryptedData er @ iv er @ salt er @ u32be H @ z H)"
    using setUint32_block [of "u32be C @ encryptedData er @ iv er @ salt er"
        "0 + 4 + C + 12 + 16" "z 4" "z H" H]
    by (simp add: z_len u32be_length C_def iv salt)
  have s6: "Uint8Array_set (u32be C @ encryptedData er @ iv er @ salt er @ u32be H @ z H) hb
              (0 + 4 + C + 12 + 16 + 4)
              = Inr (u32be C @ encryptedData er @ iv er @ salt er @ u32be H @ hb)"
    using Uint8Array_set_block [of "u32be C @ encryptedData er @ iv er @ salt er @ u32be H"
        "0 + 4 + C + 12 + 16 + 4" "z H" hb "[]"]
    by (simp add: z_len u32be_length C_def iv salt H_def)
  show ?thesis
    unfolding buildPayload_def Let_def C_def [symmetric] hb_def [symmetric] H_def [symmetric]
    by (simp only: s0 s1 s2 s3 s4 s5 s6 bindE_def sum.case)
qed

lemma buildPayload_example: "buildPayload ascii_encode er_example = Inr payload_example"
  by (simp add: buildPayload_wellformed er_example_def payload_example_def u32be_def
      ascii_encode_def)

text \<open>The header bytes are the big-endian bytes of the length.\<close>

lemma byte_of_shift:
  assumes "k \<in> {0, 8, 16, 24}"
  shows "(ucast (signed_drop_bit k (of_nat n :: 32 word) AND 0xFF) :: u8) = of_nat (n div 2 ^ k)"
proof (rule bit_word_eqI)
  fix j
  assume "j < LENGTH(8)"
  then have j: "j < 8" by simp
  have m: "(0xFF :: 32 word) = mask 8" by (simp add: mask_eq_exp_minus_1)
  have "n div 2 ^ k = drop_bit k n" by (simp add: drop_bit_eq_div)
  then show "bit (ucast (signed_drop_bit k (of_nat n :: 32 word) AND 0xFF) :: u8) j
               = bit (of_nat (n div 2 ^ k) :: u8) j"
    using j assms
    by (auto simp: m bit_ucast_iff bit_and_iff bit_mask_iff bit_signed_drop_bit_iff
        bit_of_nat_iff bit_drop_bit_eq add.commute)
qed

lemma lengthHeader_u32be: "lengthHeader n = dataToBits (u32be n)"
proof -
  have "(ucast ((of_nat n :: 32 word) AND 0xFF) :: u8) = of_nat n"
    using byte_of_shift [of 0 n] by simp
  then show ?thesis
    using byte_of_shift [of 24 n] byte_of_shift [of 16 n] byte_of_shift [of 8 n]
    by (simp add: lengthHeader_def u32be_def Let_def)
qed

lemma lengthHeader_length: "length (lengthHeader n) = 32"
  by (simp add: lengthHeader_u32be dataToBits_length u32be_length)

lemma unat_byte: "unat (of_nat m :: u8) = m mod 256"
  by (simp add: unat_of_nat)

lemma u32be_value:
  "(n div 2 ^ 24) mod 256 * 2 ^ 24 + (n div 2 ^ 16) mod 256 * 2 ^ 16
     + (n div 2 ^ 8) mod 256 * 2 ^ 8 + n mod 256 = n mod 2 ^ 32" for n :: nat
proof -
  have a: "n mod 2 ^ 32 = 2 ^ 24 * (n div 2 ^ 24 mod 2 ^ 8) + n mod 2 ^ 24"
    using mod_mult2_eq [of n "2 ^ 24" "2 ^ 8"] by (simp only: power_add [symmetric]) simp
  have b: "n mod 2 ^ 24 = 2 ^ 16 * (n div 2 ^ 16 mod 2 ^ 8) + n mod 2 ^ 16"
    using mod_mult2_eq [of n "2 ^ 16" "2 ^ 8"] by (simp only: power_add [symmetric]) simp
  have c: "n mod 2 ^ 16 = 2 ^ 8 * (n div 2 ^ 8 mod 2 ^ 8) + n mod 2 ^ 8"
    using mod_mult2_eq [of n "2 ^ 8" "2 ^ 8"] by (simp only: power_add [symmetric]) simp
  show ?thesis
    unfolding a b c by simp
qed

lemma getUint32_u32be: "getUint32 (u32be n @ rest) 0 = Inr (n mod 2 ^ 32)"
  using u32be_value [of n]
  by (simp add: getUint32_def u32be_def unat_byte)

lemma getUint32_at:
  "length pre = off \<Longrightarrow> getUint32 (pre @ u32be n @ rest) off = Inr (n mod 2 ^ 32)"
  using u32be_value [of n]
  by (simp add: getUint32_def u32be_def unat_byte nth_append)

lemma header_decodes:
  "n < 2 ^ 32 \<Longrightarrow> getUint32 (bitsToData (lengthHeader n)) 0 = Inr n"
  using getUint32_u32be [of n "[]"]
  by (simp add: lengthHeader_u32be bitsToData_dataToBits)

section \<open>Writing and reading one bit\<close>

text \<open>Every element of a bit expansion is 0 or 1.\<close>

lemma byteBits_bit: "b \<in> set (byteBits x) \<Longrightarrow> b AND 1 = b"
  by (auto simp: byteBits_def and.assoc)

lemma dataToBits_bit: "b \<in> set (dataToBits bytes) \<Longrightarrow> b AND 1 = b"
  by (auto simp: dataToBits_def byteBits_bit)

lemma lengthHeader_bit: "b \<in> set (lengthHeader n) \<Longrightarrow> b AND 1 = b"
  by (simp add: lengthHeader_u32be dataToBits_bit)

lemma bit_FE: "bit (0xFE :: u8) k \<longleftrightarrow> 0 < k \<and> k < 8"
proof -
  have fe: "(0xFE :: u8) = NOT 1" by simp
  show ?thesis
    unfolding fe by (simp only: bit_not_iff bit_1_iff possible_bit_word) auto
qed

lemma embedBit_upper:
  assumes "b AND 1 = b"
  shows "drop_bit 1 (embedBit p b) = drop_bit 1 p"
proof (rule bit_word_eqI)
  fix n
  assume "n < LENGTH(8)"
  have "\<not> bit b (Suc n)"
    using assms by (metis bit_and_iff bit_1_iff nat.simps(3))
  moreover have "bit p (Suc n) \<Longrightarrow> Suc n < 8"
    using bit_imp_le_length [of p "Suc n"] by simp
  ultimately show "bit (drop_bit 1 (embedBit p b)) n = bit (drop_bit 1 p) n"
    unfolding embedBit_def
    by (simp only: bit_drop_bit_eq o_apply bit_or_iff bit_and_iff bit_FE) auto
qed

lemma embedBit_extract:
  assumes "b AND 1 = b"
  shows "extractBit (embedBit p b) = b"
proof -
  have fe: "(0xFE :: u8) = NOT 1" by simp
  have "extractBit (embedBit p b) = ((p AND NOT 1) AND 1) OR (b AND 1)"
    by (simp add: extractBit_def embedBit_def fe bit.conj_disj_distrib2)
  also have "(p AND NOT 1) AND 1 = 0"
    by (simp add: and.assoc)
  finally show ?thesis using assms by simp
qed

section \<open>Embedding writes least-significant bits at scheduled slots only\<close>

lemma embedBits_embedded:
  "embedBits positions allBits pixels = embedded positions allBits pixels (length allBits)"
proof -
  have "(\<lambda>i px. if i < length positions
                then let pixelIndex = positions ! i; pixelStart = pixelIndex * 4; channel = i mod 3
                     in px[pixelStart + channel :=
                             embedBit (px ! (pixelStart + channel)) (allBits ! i)]
                else px) = embedStep positions allBits"
    by (intro ext) (simp add: embedStep_def slot_def Let_def)
  then show ?thesis by (simp only: embedBits_def embedded_def)
qed

lemma embedded_0: "embedded positions allBits pixels 0 = pixels"
  by (simp add: embedded_def)

lemma embedded_Suc:
  "embedded positions allBits pixels (Suc n)
     = embedStep positions allBits n (embedded positions allBits pixels n)"
  by (simp add: embedded_def)

lemma embedStep_length: "length (embedStep positions allBits i px) = length px"
  by (simp add: embedStep_def)

lemma embedded_length: "length (embedded positions allBits pixels n) = length pixels"
  by (induction n) (simp_all add: embedded_0 embedded_Suc embedStep_length)

lemma embedStep_other:
  "k \<noteq> slot positions i \<Longrightarrow> embedStep positions allBits i px ! k = px ! k"
  by (simp add: embedStep_def)

lemma embedStep_upper:
  assumes "allBits ! i AND 1 = allBits ! i" and "k < length px"
  shows "drop_bit 1 (embedStep positions allBits i px ! k) = drop_bit 1 (px ! k)"
proof (cases "i < length positions \<and> k = slot positions i")
  case True
  with assms embedBit_upper [OF assms(1), of "px ! slot positions i"] show ?thesis
    by (simp add: embedStep_def)
next
  case False
  then show ?thesis by (auto simp: embedStep_def)
qed

lemma embedded_upper:
  assumes bits: "\<forall>b \<in> set allBits. b AND 1 = b" and n: "n \<le> length allBits"
    and k: "k < length pixels"
  shows "drop_bit 1 (embedded positions allBits pixels n ! k) = drop_bit 1 (pixels ! k)"
  using n
proof (induction n)
  case 0
  then show ?case by (simp add: embedded_0)
next
  case (Suc n)
  then have "allBits ! n \<in> set allBits" by simp
  with bits have b: "allBits ! n AND 1 = allBits ! n" by blast
  have "k < length (embedded positions allBits pixels n)" using k by (simp add: embedded_length)
  from embedStep_upper [OF b this] Suc show ?case by (simp add: embedded_Suc)
qed

lemma embedded_untouched:
  assumes "\<forall>i. i < n \<and> i < length positions \<longrightarrow> k \<noteq> slot positions i"
  shows "embedded positions allBits pixels n ! k = pixels ! k"
  using assms
proof (induction n)
  case 0
  then show ?case by (simp add: embedded_0)
next
  case (Suc n)
  then have IH: "embedded positions allBits pixels n ! k = pixels ! k" by simp
  show ?case
  proof (cases "n < length positions")
    case True
    with Suc.prems have "k \<noteq> slot positions n" by simp
    then show ?thesis by (simp add: embedded_Suc embedStep_other IH)
  next
    case False
    then show ?thesis by (simp add: embedded_Suc embedStep_def IH)
  qed
qed

lemma slot_mod4: "slot positions i mod 4 = i mod 3"
proof -
  have "i mod 3 < 4" by (rule less_trans [of _ 3]) simp_all
  then show ?thesis by (simp add: slot_def)
qed

lemma slot_not_alpha: "k mod 4 = 3 \<Longrightarrow> k \<noteq> slot positions i"
  using slot_mod4 [of positions i] by auto

lemma embedDataInImage_Inr:
  "embedDataInImage encode img er password = Some (Inr img')
     \<longleftrightarrow> (\<exists>payload positions.
            buildPayload encode er = Inr payload
          \<and> generatePixelPositions (width img) (height img) (length payload) password
              = Some (Inr positions)
          \<and> img' = img\<lparr>data := embedBits positions (lengthHeader (length payload) @ dataToBits payload)
                                   (data img)\<rparr>)"
  by (auto simp: embedDataInImage_def Let_def split: sum.splits option.splits)

lemma embedDataInImage_frame:
  assumes "embedDataInImage encode img er password = Some (Inr img')"
  shows "width img' = width img" and "height img' = height img"
    and "length (data img') = length (data img)"
    and "k < length (data img) \<Longrightarrow> drop_bit 1 (data img' ! k) = drop_bit 1 (data img ! k)"
    and "k mod 4 = 3 \<Longrightarrow> data img' ! k = data img ! k"
    and "data img' ! k \<noteq> data img ! k \<Longrightarrow>
           \<exists>payload positions i.
             buildPayload encode er = Inr payload
           \<and> generatePixelPositions (width img) (height img) (length payload) password
               = Some (Inr positions)
           \<and> i < length positions \<and> k = positions ! i * 4 + i mod 3"
proof -
  from assms obtain payload positions where
    payload: "buildPayload encode er = Inr payload"
    and positions: "generatePixelPositions (width img) (height img) (length payload) password
                     = Some (Inr positions)"
    and img': "img' = img\<lparr>data := embedBits positions
                                 (lengthHeader (length payload) @ dataToBits payload) (data img)\<rparr>"
    unfolding embedDataInImage_Inr by blast
  let ?bits = "lengthHeader (length payload) @ dataToBits payload"
  have data: "data img' = embedded positions ?bits (data img) (length ?bits)"
    by (simp add: img' embedBits_embedded)
  have bits: "\<forall>b \<in> set ?bits. b AND 1 = b"
    using lengthHeader_bit dataToBits_bit by auto
  show "width img' = width img" and "height img' = height img" by (simp_all add: img')
  show "length (data img') = length (data img)" by (simp add: data embedded_length)
  show "k < length (data img) \<Longrightarrow> drop_bit 1 (data img' ! k) = drop_bit 1 (data img ! k)"
    unfolding data using bits by (intro embedded_upper) simp_all
  show "k mod 4 = 3 \<Longrightarrow> data img' ! k = data img ! k"
    unfolding data by (intro embedded_untouched) (simp add: slot_not_alpha)
  show "\<exists>payload positions i.
             buildPayload encode er = Inr payload
           \<and> generatePixelPositions (width img) (height img) (length payload) password
               = Some (Inr positions)
           \<and> i < length positions \<and> k = positions ! i * 4 + i mod 3"
    if changed: "data img' ! k \<noteq> data img ! k"
  proof -
    have "\<not> (\<forall>i. i < length ?bits \<and> i < length positions \<longrightarrow> k \<noteq> slot positions i)"
      using changed embedded_untouched [of "length ?bits" positions k ?bits "data img"]
      unfolding data by blast
    then obtain i where "i < length positions" "k = slot positions i" by blast
    with payload positions show ?thesis unfolding slot_def by blast
  qed
qed

lemma embedDataInImage_returns:
  assumes "length (iv er) = 12" and "length (salt er) = 16"
    and "32 + (36 + length (encryptedData er) + length (encode (hash er))) * 8 \<le> width img * height img"
    and "width img * height img \<le> 2 ^ 32 - 2 ^ 11"
  shows "\<exists>img'. embedDataInImage encode img er password = Some (Inr img')"
proof -
  obtain payload where payload: "buildPayload encode er = Inr payload"
    using buildPayload_wellformed [OF assms(1,2)] by blast
  have len: "length payload = 36 + length (encryptedData er) + length (encode (hash er))"
    using payload by (rule buildPayload_length)
  obtain positions where
    "generatePixelPositions (width img) (height img) (length payload) password = Some (Inr positions)"
    using generatePixelPositions_returns [of "length payload" "width img" "height img" password]
      assms(3,4) len by auto
  with payload show ?thesis
    unfolding embedDataInImage_Inr by blast
qed

lemma embedDataInImage_example:
  "\<exists>img'. embedDataInImage ascii_encode img_example er_example password_Aa = Some (Inr img')"
  by (rule embedDataInImage_returns)
    (simp_all add: er_example_def img_example_def ascii_encode_def)

section \<open>Reading back what was written\<close>

text \<open>Reading back what the write loop wrote.\<close>

lemma slot_inj:
  assumes "distinct positions" "i < length positions" "j < length positions"
    and "slot positions i = slot positions j"
  shows "i = j"
proof -
  have "slot positions i div 4 = positions ! i" "slot positions j div 4 = positions ! j"
    by (simp_all add: slot_def)
  with assms(4) have "positions ! i = positions ! j" by simp
  with assms(1-3) show ?thesis by (simp add: nth_eq_iff_index_eq)
qed

lemma slot_less:
  assumes "positions ! i < T"
  shows "slot positions i < 4 * T"
proof -
  have "i mod 3 < 4" by (rule less_trans [of _ 3]) simp_all
  with assms show ?thesis unfolding slot_def by linarith
qed

lemma embedded_read:
  assumes d: "distinct positions"
    and r: "\<forall>i < length positions. slot positions i < length pixels"
    and bits: "\<forall>b \<in> set allBits. b AND 1 = b"
  shows "n \<le> length positions \<Longrightarrow> n \<le> length allBits \<Longrightarrow> i < n
           \<Longrightarrow> extractBit (embedded positions allBits pixels n ! slot positions i) = allBits ! i"
proof (induction n)
  case 0
  then show ?case by simp
next
  case (Suc n)
  let ?E = "embedded positions allBits pixels n"
  have n: "n < length positions" "n < length allBits" using Suc.prems by simp_all
  have inr: "slot positions n < length ?E" using r n(1) by (simp add: embedded_length)
  have b: "allBits ! n AND 1 = allBits ! n" using bits n(2) by simp
  show ?case
  proof (cases "i = n")
    case True
    with n inr b show ?thesis
      by (simp add: embedded_Suc embedStep_def embedBit_extract)
  next
    case False
    with Suc.prems have i: "i < n" by simp
    then have "slot positions i \<noteq> slot positions n"
      using slot_inj [OF d _ n(1), of i] n(1) by auto
    then have "embedded positions allBits pixels (Suc n) ! slot positions i = ?E ! slot positions i"
      by (simp add: embedded_Suc embedStep_other)
    with Suc.IH i n show ?thesis by simp
  qed
qed

lemma map_nth_upt: "hi \<le> length xs \<Longrightarrow> map ((!) xs) [lo..<hi] = take (hi - lo) (drop lo xs)"
  by (rule nth_equalityI) simp_all

lemma readBits_embedded:
  assumes d: "distinct positions"
    and r: "\<forall>i < length positions. slot positions i < length pixels"
    and bits: "\<forall>b \<in> set allBits. b AND 1 = b"
    and len: "length allBits = length positions"
    and hi: "hi \<le> length qs" "hi \<le> length positions"
    and qs: "\<forall>i < hi. qs ! i = positions ! i"
  shows "readBits qs (embedBits positions allBits pixels) lo hi = take (hi - lo) (drop lo allBits)"
proof -
  let ?px = "embedBits positions allBits pixels"
  have px: "?px = embedded positions allBits pixels (length positions)"
    by (simp add: embedBits_embedded len)
  have "readBits qs ?px lo hi = map ((!) allBits) [lo..<hi]"
    unfolding readBits_def
  proof (rule map_cong [OF refl])
    fix i
    assume "i \<in> set [lo..<hi]"
    then have i: "i < hi" by simp
    then have iq: "i < length qs" and ip: "i < length positions" using hi by simp_all
    have s: "qs ! i * 4 + i mod 3 = slot positions i" using qs i by (simp add: slot_def)
    have inr: "slot positions i < length ?px"
      using r ip by (simp add: px embedded_length)
    have "extractBit (?px ! slot positions i) = allBits ! i"
      unfolding px using embedded_read [OF d r bits, of "length positions" i] len ip by simp
    with iq inr s show "(if i < length qs \<and> qs ! i * 4 + i mod 3 < length ?px
                         then extractBit (?px ! (qs ! i * 4 + i mod 3)) else 0) = allBits ! i"
      by simp
  qed
  also have "\<dots> = take (hi - lo) (drop lo allBits)"
    using hi(2) len by (intro map_nth_upt) simp
  finally show ?thesis .
qed

text \<open>Parsing is the inverse of building.\<close>

lemma slice_at:
  "length pre = a \<Longrightarrow> b = a + length xs \<Longrightarrow> slice (pre @ xs @ rest) a b = xs"
  by (simp add: slice_def)

lemma parsePayload_wellformed:
  assumes iv: "length iv0 = 12" and salt: "length salt0 = 16"
    and C: "length ct < 2 ^ 32" and H: "length hb < 2 ^ 32"
  shows "parsePayload decode (u32be (length ct) @ ct @ iv0 @ salt0 @ u32be (length hb) @ hb)
           = Inr \<lparr>encryptedData = ct, iv = iv0, salt = salt0, hash = decode hb\<rparr>"
proof -
  let ?p = "u32be (length ct) @ ct @ iv0 @ salt0 @ u32be (length hb) @ hb"
  have g1: "getUint32 ?p 0 = Inr (length ct)"
    using getUint32_u32be [of "length ct"] C by simp
  have g2: "getUint32 ?p (0 + 4 + length ct + 12 + 16) = Inr (length hb)"
    using getUint32_at [of "u32be (length ct) @ ct @ iv0 @ salt0" "0 + 4 + length ct + 12 + 16"
        "length hb" hb] H iv salt
    by (simp add: u32be_length)
  have s1: "slice ?p (0 + 4) (0 + 4 + length ct) = ct"
    using slice_at [of "u32be (length ct)" "0 + 4" "0 + 4 + length ct" ct] 
    by (simp add: u32be_length)
  have s2: "slice ?p (0 + 4 + length ct) (0 + 4 + length ct + 12) = iv0"
    using slice_at [of "u32be (length ct) @ ct" "0 + 4 + length ct" "0 + 4 + length ct + 12" iv0]
    by (simp add: u32be_length iv)
  have s3: "slice ?p (0 + 4 + length ct + 12) (0 + 4 + length ct + 12 + 16) = salt0"
    using slice_at [of "u32be (length ct) @ ct @ iv0" "0 + 4 + length ct + 12"
        "0 + 4 + length ct + 12 + 16" salt0]
    by (simp add: u32be_length iv salt)
  have s4: "slice ?p (0 + 4 + length ct + 12 + 16 + 4)
              (0 + 4 + length ct + 12 + 16 + 4 + length hb) = hb"
    using slice_at [of "u32be (length ct) @ ct @ iv0 @ salt0 @ u32be (length hb)"
        "0 + 4 + length ct + 12 + 16 + 4" "0 + 4 + length ct + 12 + 16 + 4 + length hb" hb "[]"]
    by (simp add: u32be_length iv salt)
  show ?thesis
    unfolding parsePayload_def Let_def
    by (simp only: g1 g2 s1 s2 s3 s4 bindE_def sum.case)
qed

lemma generatePixelPositions_seed:
  "PRNG_new seed' = PRNG_new seed
     \<Longrightarrow> generatePixelPositions w h n seed' = generatePixelPositions w h n seed"
  by (simp add: generatePixelPositions_def)

section \<open>Extraction recovers what embedding stored\<close>

text \<open>
  The round trip of the steganographic layer: if embedding returned an image, the pixel
  buffer has four bytes per pixel, and the payload length fits the 32-bit header, then
  extraction under any password with the same generator seed returns the embedded
  \<^verbatim>\<open>EncryptionResult\<close>.
\<close>

lemma extract_embed:
  assumes embed: "embedDataInImage encode img er password = Some (Inr img')"
    and wf: "length (data img) = 4 * (width img * height img)"
    and iv: "length (iv er) = 12" and salt: "length (salt er) = 16"
    and small: "36 + length (encryptedData er) + length (encode (hash er)) < 2 ^ 32"
    and codec: "decode (encode (hash er)) = hash er"
    and seed: "PRNG_new password' = PRNG_new password"
  shows "extractDataFromImage decode img' password' = Some (Inr er)"
proof -
  from embed obtain payload positions where
    payload: "buildPayload encode er = Inr payload"
    and positions: "generatePixelPositions (width img) (height img) (length payload) password
                     = Some (Inr positions)"
    and img': "img' = img\<lparr>data := embedBits positions
                                 (lengthHeader (length payload) @ dataToBits payload) (data img)\<rparr>"
    unfolding embedDataInImage_Inr by blast
  define L where "L = length payload"
  define allBits where "allBits = lengthHeader L @ dataToBits payload"
  define px where "px = embedBits positions allBits (data img)"
  have L: "L = 36 + length (encryptedData er) + length (encode (hash er))"
    unfolding L_def using payload by (rule buildPayload_length)
  have L32: "L < 2 ^ 32" using small L by simp
  have L4: "4 \<le> L" using L by simp
  have payload_eq: "payload = u32be (length (encryptedData er)) @ encryptedData er @ iv er @ salt er
                       @ u32be (length (encode (hash er))) @ encode (hash er)"
    using payload buildPayload_wellformed [OF iv salt, of encode] by simp
  have plen: "length positions = 32 + L * 8" and pdist: "distinct positions"
    and prange: "set positions \<subseteq> {..<width img * height img}"
    using generatePixelPositions_result [OF positions] by (simp_all add: L_def)
  have alen: "length allBits = length positions"
    by (simp add: allBits_def lengthHeader_length dataToBits_length plen L_def)
  have bits: "\<forall>b \<in> set allBits. b AND 1 = b"
    using lengthHeader_bit dataToBits_bit by (auto simp: allBits_def)
  have slots: "\<forall>i < length positions. slot positions i < length (data img)"
  proof (intro allI impI)
    fix i
    assume "i < length positions"
    then have "positions ! i \<in> set positions" by simp
    with prange have "positions ! i < width img * height img" by blast
    then show "slot positions i < length (data img)"
      unfolding wf by (rule slot_less)
  qed
  have w: "width img' = width img" and h: "height img' = height img" and d: "data img' = px"
    by (simp_all add: img' px_def allBits_def L_def)
  \<comment> \<open>the header call of extraction\<close>
  have pos': "generatePixelPositions (width img) (height img) n password'
                = generatePixelPositions (width img) (height img) n password" for n
    using seed by (rule generatePixelPositions_seed)
  have hdr: "generatePixelPositions (width img) (height img) 4 password'
               = Some (Inr (take 64 positions))"
    using generatePixelPositions_prefix [OF positions [folded L_def] L4] by (simp add: pos')
  have "readBits (take 32 positions) px 0 32 = take (32 - 0) (drop 0 allBits)"
    unfolding px_def
    by (rule readBits_embedded [OF pdist slots bits alen]) (simp_all add: plen)
  then have lengthBits: "readBits (take 32 positions) px 0 32 = lengthHeader L"
    by (simp add: allBits_def lengthHeader_length)
  have total: "getUint32 (bitsToData (lengthHeader L)) 0 = Inr L"
    using L32 by (rule header_decodes)
  \<comment> \<open>the payload call\<close>
  have full: "generatePixelPositions (width img) (height img) L password' = Some (Inr positions)"
    using positions by (simp add: pos' L_def)
  have "readBits positions px 32 (32 + L * 8) = take (32 + L * 8 - 32) (drop 32 allBits)"
    unfolding px_def
    by (rule readBits_embedded [OF pdist slots bits alen]) (simp_all add: plen)
  then have payloadBits: "readBits positions px 32 (32 + L * 8) = dataToBits payload"
    by (simp add: allBits_def lengthHeader_length dataToBits_length L_def)
  have parse: "parsePayload decode payload = Inr er"
  proof -
    have "length (encryptedData er) < 2 ^ 32" "length (encode (hash er)) < 2 ^ 32"
      using small by simp_all
    from parsePayload_wellformed [OF iv salt this, of decode]
    show ?thesis by (simp add: payload_eq [symmetric] codec)
  qed
  show ?thesis
    unfolding extractDataFromImage_def Let_def w h d
    by (simp add: hdr lengthBits total full payloadBits bitsToData_dataToBits parse)
qed

section \<open>Decryption of what extraction recovers\<close>

text \<open>
  The extraction workflow on an image made by \<^verbatim>\<open>encryptMessage\<close> and
  \<^verbatim>\<open>embedDataInImage\<close>: with a password that seeds the scheduler and derives the key like
  the embedding password (the embedding password itself, for one), the message is shown
  with verified status true.
\<close>

lemma handleExtractMessage_Shown:
  assumes "handleExtractMessage pf img password = Some (Shown m v)"
  shows "\<exists>er buf. extractDataFromImage (textDecode pf) img password = Some (Inr er)
          \<and> aesGcmDecrypt pf (deriveKey pf password (salt er)) (iv er) (encryptedData er) = Some buf
          \<and> m = textDecode pf buf \<and> m \<noteq> [] \<and> v = (generateHash pf m = hash er)"
  using assms
  by (auto simp: handleExtractMessage_def decryptMessage_def Let_def
      split: if_splits option.splits sum.splits)

lemma handleExtractMessage_embed:
  assumes embed: "embedDataInImage (textEncode pf) img (encryptMessage pf m P salt0 iv0) P
                    = Some (Inr img')"
    and wf: "length (data img) = 4 * (width img * height img)"
    and iv0: "length iv0 = 12" and salt0: "length salt0 = 16"
    and small: "36 + length (aesGcmEncrypt pf (deriveKey pf P salt0) iv0 (textEncode pf m))
                  + length (textEncode pf (generateHash pf m)) < 2 ^ 32"
    and hash_codec: "textDecode pf (textEncode pf (generateHash pf m)) = generateHash pf m"
    and msg_codec: "textDecode pf (textEncode pf m) = m" and msg: "m \<noteq> []"
    and cipher: "aesGcmDecrypt pf (deriveKey pf P salt0) iv0
                   (aesGcmEncrypt pf (deriveKey pf P salt0) iv0 (textEncode pf m))
                   = Some (textEncode pf m)"
    and seed: "PRNG_new P' = PRNG_new P"
    and key: "deriveKey pf P' salt0 = deriveKey pf P salt0"
    and P': "P' \<noteq> []"
  shows "handleExtractMessage pf img' P' = Some (Shown m True)"
proof -
  let ?er = "encryptMessage pf m P salt0 iv0"
  have er: "encryptedData ?er = aesGcmEncrypt pf (deriveKey pf P salt0) iv0 (textEncode pf m)"
    "iv ?er = iv0" "salt ?er = salt0" "hash ?er = generateHash pf m"
    by (simp_all add: encryptMessage_def Let_def)
  have "extractDataFromImage (textDecode pf) img' P' = Some (Inr ?er)"
  proof (rule extract_embed [OF embed wf _ _ _ _ seed])
    show "length (iv ?er) = 12" "length (salt ?er) = 16" by (simp_all add: er iv0 salt0)
    show "36 + length (encryptedData ?er) + length (textEncode pf (hash ?er)) < 2 ^ 32"
      unfolding er by (rule small)
    show "textDecode pf (textEncode pf (hash ?er)) = hash ?er"
      unfolding er by (rule hash_codec)
  qed
  then show ?thesis
    using P' by (simp add: handleExtractMessage_def decryptMessage_def Let_def er key cipher
        msg_codec msg)
qed

text \<open>The concrete scenario.\<close>

lemma hmacKeyBlock_nul: "length k < 64 \<Longrightarrow> hmacKeyBlock (k @ [0]) = hmacKeyBlock k"
proof -
  assume "length k < 64"
  then have "64 - length k = Suc (64 - length (k @ [0]))" by simp
  then have "replicate (64 - length k) (0 :: u8) = 0 # replicate (64 - length (k @ [0])) 0"
    by (simp only: replicate_Suc)
  then show ?thesis by (simp add: hmacKeyBlock_def)
qed

lemma password_f5_nul: "password_f5_nul = password_f5 @ [0]"
  by (simp add: password_f5_nul_def password_f5_def)

lemma PRNG_new_f5: "PRNG_new password_f5 = 0" "PRNG_new password_f5_nul = 0"
  by (simp_all add: PRNG_new_def password_f5_def password_f5_nul_def)

lemma deriveKey_f5_nul:
  "deriveKey standin password_f5_nul salt0 = deriveKey standin password_f5 salt0"
proof -
  have "ascii_encode password_f5_nul = ascii_encode password_f5 @ [0]"
    by (simp add: password_f5_nul ascii_encode_def)
  moreover have "length (ascii_encode password_f5) < 64"
    by (simp add: ascii_encode_def password_f5_def)
  ultimately show ?thesis
    by (simp add: deriveKey_def standin_def hmacKeyBlock_nul)
qed

lemma ascii_codec_small:
  assumes "x < 256"
  shows "(ucast (ucast (of_nat x :: 16 word) :: u8) :: 16 word) = of_nat x"
proof -
  have "take_bit 16 x = x" "take_bit 8 x = x"
    using assms by (simp_all add: take_bit_nat_eq_self)
  then show ?thesis by (simp add: unsigned_of_nat)
qed

lemma ascii_codec_byteToHex: "ascii_decode (ascii_encode (byteToHex b)) = byteToHex b"
proof -
  have d: "ucast (ucast (hexDigit n) :: u8) = hexDigit n" if "n < 16" for n
    using that ascii_codec_small [of "48 + n"] ascii_codec_small [of "87 + n"]
    by (simp add: hexDigit_def)
  have "unat b div 16 < 16"
    using unsigned_less [of b, where 'a = nat] by (simp add: div_less_iff_less_mult)
  then show ?thesis
    by (simp add: ascii_decode_def ascii_encode_def byteToHex_def d)
qed

lemma ascii_codec_hex:
  "ascii_decode (ascii_encode (concat (map byteToHex bs))) = concat (map byteToHex bs)"
proof (induction bs)
  case Nil
  then show ?case by (simp add: ascii_decode_def ascii_encode_def)
next
  case (Cons b bs)
  have "ascii_decode (ascii_encode (xs @ ys)) = ascii_decode (ascii_encode xs) @ ascii_decode (ascii_encode ys)"
    for xs ys by (simp add: ascii_decode_def ascii_encode_def)
  with Cons ascii_codec_byteToHex [of b] show ?case by simp
qed

lemma generateHash_length: "length (generateHash pf m) = 2 * length (sha256 pf (textEncode pf m))"
  by (simp add: generateHash_def length_concat byteToHex_def o_def sum_list_triv)

lemma embed_hello:
  "embedDataInImage (textEncode standin) img_example er_hello password_f5 = Some (Inr stego_hello)"
proof -
  have "\<exists>img'. embedDataInImage (textEncode standin) img_example er_hello password_f5
                 = Some (Inr img')"
    by (rule embedDataInImage_returns)
      (simp_all add: er_hello_def encryptMessage_def Let_def salt_example_def iv_example_def
        img_example_def standin_def deriveKey_def hmacKeyBlock_def ascii_encode_def
        generateHash_length message_hello_def password_f5_def)
  then show ?thesis by (auto simp: stego_hello_def)
qed

lemma extract_hello:
  assumes "PRNG_new P' = PRNG_new password_f5"
    and "deriveKey standin P' salt_example = deriveKey standin password_f5 salt_example"
    and "P' \<noteq> []"
  shows "handleExtractMessage standin stego_hello P' = Some (Shown message_hello True)"
proof (rule handleExtractMessage_embed [OF embed_hello [unfolded er_hello_def]])
  show "length (data img_example) = 4 * (width img_example * height img_example)"
    by (simp add: img_example_def)
  show "length iv_example = 12" "length salt_example = 16"
    by (simp_all add: iv_example_def salt_example_def)
  show "36 + length (aesGcmEncrypt standin (deriveKey standin password_f5 salt_example) iv_example
                      (textEncode standin message_hello))
          + length (textEncode standin (generateHash standin message_hello)) < 2 ^ 32"
    by (simp add: standin_def deriveKey_def hmacKeyBlock_def ascii_encode_def generateHash_length
        message_hello_def password_f5_def salt_example_def iv_example_def)
  show "textDecode standin (textEncode standin (generateHash standin message_hello))
          = generateHash standin message_hello"
  proof -
    have "textDecode standin = ascii_decode" "textEncode standin = ascii_encode"
      by (simp_all add: standin_def)
    then show ?thesis
      unfolding generateHash_def by (simp only: ascii_codec_hex)
  qed
  show "textDecode standin (textEncode standin message_hello) = message_hello"
    by (simp add: standin_def ascii_decode_def ascii_encode_def message_hello_def)
  show "message_hello \<noteq> []" by (simp add: message_hello_def)
  show "aesGcmDecrypt standin (deriveKey standin password_f5 salt_example) iv_example
          (aesGcmEncrypt standin (deriveKey standin password_f5 salt_example) iv_example
            (textEncode standin message_hello))
          = Some (textEncode standin message_hello)"
    by (simp add: standin_def)
qed (fact assms)+

section \<open>The claims\<close>

text \<open>
  C1. The round trip is claimed for every cover image whose capacity (three bits per
  pixel) suffices. For a 2-byte message the payload has \<open>36 + 18 + 64 = 118\<close> bytes, that
  is 976 bits with the header; a 20 x 20 image has room for 1200 bits by that count, the
  scheduler's guard passes, and \<^verbatim>\<open>embedDataInImage\<close> then never returns, because the
  schedule needs 976 distinct pixels out of 400.
\<close>

theorem C1_embedding_diverges:
  "32 + (36 + 18 + 64) * 8 \<le> 20 * 20 * (3::nat)
   \<and> embedDataInImage ascii_encode img_small er_two_bytes password = None"
proof -
  obtain payload where payload: "buildPayload ascii_encode er_two_bytes = Inr payload"
    using buildPayload_wellformed [of er_two_bytes ascii_encode]
    by (simp add: er_two_bytes_def)
  have "length payload = 118"
    using buildPayload_length [OF payload] by (simp add: er_two_bytes_def ascii_encode_def)
  moreover have "generatePixelPositions 20 20 118 password = None"
    by (rule generatePixelPositions_diverges) simp_all
  ultimately show ?thesis
    using payload by (simp add: embedDataInImage_def img_small_def)
qed

text \<open>
  C2. A payload whose bit count (the 32 header bits included) is exactly
  \<open>3 \<times> width \<times> height\<close> is meant to be embedded, and one needing more is refused with
  CapacityExceeded. The guard of the scheduler does refuse the larger one, but the
  schedule consists of distinct pixel indices, of which there are only
  \<open>width \<times> height\<close>: for a 41 x 8 image and a 119-byte payload (984 bits, exactly three
  per pixel) the guard passes and the loop never returns.
\<close>

theorem C2_capacity_boundary_diverges:
  "32 + 119 * 8 = 41 * 8 * (3::nat) \<and> generatePixelPositions 41 8 119 password = None"
proof -
  have "generatePixelPositions 41 8 119 password = None"
    by (rule generatePixelPositions_diverges) simp_all
  then show ?thesis by simp
qed

text \<open>
  C3. Prefix stability of the scheduler. Whenever the call for \<open>n\<close> bytes returns a
  schedule, the call for any \<open>m \<le> n\<close> bytes with the same width, height and seed
  returns exactly its first \<open>32 + 8m\<close> positions; and the first 32 positions of the
  4-byte call that extraction makes for the header are the first 32 positions of that
  schedule.
\<close>

theorem C3_prefix_stability:
  assumes "generatePixelPositions w h n seed = Some (Inr qs)"
  shows "(m \<le> n \<longrightarrow> generatePixelPositions w h m seed = Some (Inr (take (32 + m * 8) qs)))
         \<and> (\<forall>hs. generatePixelPositions w h 4 seed = Some (Inr hs) \<longrightarrow> take 32 hs = take 32 qs)"
  using assms generatePixelPositions_prefix generatePixelPositions_header by blast

theorem C3_prefix_stability_witness:
  "generatePixelPositions 100 100 4 password_Aa = Some (Inr schedule_Aa)
   \<and> generatePixelPositions 100 100 1 password_Aa = Some (Inr (take (32 + 1 * 8) schedule_Aa))
   \<and> (\<exists>hs. generatePixelPositions 100 100 4 password_Aa = Some (Inr hs)
             \<and> take 32 hs = take 32 schedule_Aa)"
  using C3_prefix_stability [OF generatePixelPositions_Aa, of 1] generatePixelPositions_Aa
  by simp

text \<open>
  C4, as amended. The length header that \<^verbatim>\<open>embedDataInImage\<close> embeds before the payload
  (\<open>lengthBits\<close>, the bits of \<open>lengthHeader (length payload)\<close>) is the 32-bit big-endian
  encoding of \<open>36 + C + H\<close>, the byte length of the whole payload: two 4-byte length fields,
  the 12-byte IV and the 16-byte salt around \<open>C\<close> ciphertext bytes and \<open>H\<close> hash bytes.
\<close>

theorem C4_length_header:
  assumes "buildPayload encode er = Inr payload" and "length payload < 2 ^ 32"
  shows "getUint32 (bitsToData (lengthHeader (length payload))) 0
           = Inr (36 + length (encryptedData er) + length (encode (hash er)))"
  using header_decodes [OF assms(2)] buildPayload_length [OF assms(1)] by simp

theorem C4_length_header_witness:
  "buildPayload ascii_encode er_example = Inr payload_example
   \<and> length payload_example < 2 ^ 32
   \<and> getUint32 (bitsToData (lengthHeader (length payload_example))) 0
       = Inr (36 + length (encryptedData er_example) + length (ascii_encode (hash er_example)))"
proof -
  have len: "length payload_example < 2 ^ 32" by (simp add: payload_example_def)
  from C4_length_header [OF buildPayload_example len] buildPayload_example len
  show ?thesis by blast
qed

text \<open>
  C4, as stated, fails: for 3 ciphertext bytes and 2 hash bytes the header is 41, not
  \<open>32 + 3 + 2 = 37\<close>.
\<close>

theorem C4_counterexample:
  "buildPayload ascii_encode er_example = Inr payload_example
   \<and> getUint32 (bitsToData (lengthHeader (length payload_example))) 0 = Inr 41
   \<and> 32 + length (encryptedData er_example) + length (ascii_encode (hash er_example)) = 37"
proof -
  have "length payload_example = 41" by (simp add: payload_example_def)
  then have "getUint32 (bitsToData (lengthHeader (length payload_example))) 0 = Inr 41"
    using header_decodes [of 41] by simp
  then show ?thesis
    using buildPayload_example by (simp add: er_example_def ascii_encode_def)
qed

text \<open>
  C5. For every byte sequence, also the empty one, collapsing its MSB-first bit
  expansion gives the sequence back: \<open>bitsToData (dataToBits B) = B\<close>.
\<close>

theorem C5_bit_codec_inverse: "bitsToData (dataToBits B) = B"
  by (rule bitsToData_dataToBits)

text \<open>
  C6. The scheduler is deterministic. Two calls of \<^verbatim>\<open>generatePixelPositions\<close> with the
  same width, height, byte count and password, made in whatever program states \<open>\<sigma>\<close> and
  \<open>\<sigma>'\<close> (one after the other, for instance), have the same outcome: the same exception,
  the same position sequence, or no return from either. Each call draws from a generator
  object that it creates itself; what earlier calls have left in the heap is not read.
\<close>

theorem C6_scheduler_deterministic:
  "w = w' \<Longrightarrow> h = h' \<Longrightarrow> n = n' \<Longrightarrow> password = password'
     \<Longrightarrow> map_option fst (generatePixelPositions_heap w h n password \<sigma>)
         = map_option fst (generatePixelPositions_heap w' h' n' password' \<sigma>')"
  by (simp only: generatePixelPositions_heap_refines)

theorem C6_scheduler_deterministic_witness:
  "\<exists>\<sigma>1. generatePixelPositions_heap 100 100 4 password_Aa heap_empty = Some (Inr schedule_Aa, \<sigma>1)
        \<and> (\<exists>\<sigma>2. generatePixelPositions_heap 100 100 4 password_Aa \<sigma>1 = Some (Inr schedule_Aa, \<sigma>2))"
proof -
  have "map_option fst (generatePixelPositions_heap 100 100 4 password_Aa heap_empty)
          = Some (Inr schedule_Aa)"
    by (simp only: generatePixelPositions_heap_refines generatePixelPositions_Aa)
  then obtain \<sigma>1 where
    first: "generatePixelPositions_heap 100 100 4 password_Aa heap_empty = Some (Inr schedule_Aa, \<sigma>1)"
    by auto
  have "map_option fst (generatePixelPositions_heap 100 100 4 password_Aa \<sigma>1)
          = map_option fst (generatePixelPositions_heap 100 100 4 password_Aa heap_empty)"
    by (rule C6_scheduler_deterministic) simp_all
  with first obtain \<sigma>2 where
    "generatePixelPositions_heap 100 100 4 password_Aa \<sigma>1 = Some (Inr schedule_Aa, \<sigma>2)"
    by auto
  with first show ?thesis by blast
qed

text \<open>
  C7. Whenever \<^verbatim>\<open>embedDataInImage\<close> produces an image, it has the dimensions and the
  buffer length of the cover image, and for every byte \<open>k\<close> of the pixel buffer: the upper
  seven bits are those of the cover image; an alpha byte (\<open>k mod 4 = 3\<close>) is unchanged;
  and a byte that did change is channel \<open>i mod 3\<close> (red, green or blue) of the pixel
  scheduled for some bit \<open>i\<close>.
\<close>

theorem C7_embedding_frame:
  assumes "embedDataInImage encode img er password = Some (Inr img')"
  shows "width img' = width img \<and> height img' = height img
         \<and> length (data img') = length (data img)
         \<and> (\<forall>k < length (data img).
               drop_bit 1 (data img' ! k) = drop_bit 1 (data img ! k)
             \<and> (k mod 4 = 3 \<longrightarrow> data img' ! k = data img ! k)
             \<and> (data img' ! k \<noteq> data img ! k \<longrightarrow>
                  (\<exists>payload positions i.
                      buildPayload encode er = Inr payload
                    \<and> generatePixelPositions (width img) (height img) (length payload) password
                        = Some (Inr positions)
                    \<and> i < length positions \<and> k = positions ! i * 4 + i mod 3)))"
  using embedDataInImage_frame [OF assms] by blast

theorem C7_embedding_frame_witness:
  "\<exists>img'. embedDataInImage ascii_encode img_example er_example password_Aa = Some (Inr img')
         \<and> width img' = width img_example \<and> height img' = height img_example
         \<and> length (data img') = length (data img_example)
         \<and> (\<forall>k < length (data img_example).
               drop_bit 1 (data img' ! k) = drop_bit 1 (data img_example ! k)
             \<and> (k mod 4 = 3 \<longrightarrow> data img' ! k = data img_example ! k)
             \<and> (data img' ! k \<noteq> data img_example ! k \<longrightarrow>
                  (\<exists>payload positions i.
                      buildPayload ascii_encode er_example = Inr payload
                    \<and> generatePixelPositions (width img_example) (height img_example)
                          (length payload) password_Aa
                        = Some (Inr positions)
                    \<and> i < length positions \<and> k = positions ! i * 4 + i mod 3)))"
proof -
  obtain img' where
    e: "embedDataInImage ascii_encode img_example er_example password_Aa = Some (Inr img')"
    using embedDataInImage_example by blast
  from C7_embedding_frame [OF e] e show ?thesis by blast
qed

text \<open>
  C8, as amended. Whatever the image and the password, the extraction workflow shows a
  plaintext only if extraction succeeded and AES-GCM decryption of the recovered
  ciphertext with the recovered nonce, under the key derived from the password entered
  and the recovered salt, succeeded; the plaintext shown is the decoded result of that
  decryption. In every other case (extraction fails, or the cipher rejects the key)
  nothing is shown.
\<close>

theorem C8_plaintext_only_when_authenticated:
  assumes "handleExtractMessage pf img password = Some (Shown m v)"
  shows "\<exists>er buf. extractDataFromImage (textDecode pf) img password = Some (Inr er)
          \<and> aesGcmDecrypt pf (deriveKey pf password (salt er)) (iv er) (encryptedData er)
              = Some buf
          \<and> m = textDecode pf buf"
  using handleExtractMessage_Shown [OF assms] by blast

theorem C8_plaintext_only_when_authenticated_witness:
  "handleExtractMessage standin stego_hello password_f5 = Some (Shown message_hello True)
   \<and> (\<exists>er buf. extractDataFromImage (textDecode standin) stego_hello password_f5 = Some (Inr er)
          \<and> aesGcmDecrypt standin (deriveKey standin password_f5 (salt er)) (iv er)
                (encryptedData er) = Some buf
          \<and> message_hello = textDecode standin buf)"
proof -
  have e: "handleExtractMessage standin stego_hello password_f5 = Some (Shown message_hello True)"
    by (rule extract_hello) (simp_all add: password_f5_def)
  from C8_plaintext_only_when_authenticated [OF e] e show ?thesis by blast
qed

text \<open>
  C8, as stated, fails: two different passwords can seed the scheduler alike and derive
  the same key. The seed hash of \<^verbatim>\<open>"f5a5a608"\<close> is 0, and so is that of the same string
  followed by U+0000; HMAC pads both to the same key block. The message embedded under the
  first is extracted, decrypted and verified under the second. (By
  \<open>handleExtractMessage_embed\<close> the same happens on every platform on which the two
  passwords derive the same key and the cipher decrypts what it encrypted.)
\<close>

theorem C8_counterexample:
  "password_f5_nul \<noteq> password_f5
   \<and> embedDataInImage (textEncode standin) img_example
        (encryptMessage standin message_hello password_f5 salt_example iv_example) password_f5
       = Some (Inr stego_hello)
   \<and> handleExtractMessage standin stego_hello password_f5_nul = Some (Shown message_hello True)"
proof -
  have "password_f5_nul \<noteq> password_f5"
    by (simp add: password_f5_nul_def password_f5_def)
  moreover have "handleExtractMessage standin stego_hello password_f5_nul
                   = Some (Shown message_hello True)"
  proof (rule extract_hello)
    show "PRNG_new password_f5_nul = PRNG_new password_f5" by (simp only: PRNG_new_f5)
    show "deriveKey standin password_f5_nul salt_example
            = deriveKey standin password_f5 salt_example"
      by (rule deriveKey_f5_nul)
    show "password_f5_nul \<noteq> []" by (simp add: password_f5_nul_def)
  qed
  ultimately show ?thesis
    using embed_hello by (simp add: er_hello_def)
qed

text \<open>
  C9, as amended. Let the ciphertext length field of the recovered payload be readable.
  If it exceeds the bytes that remain after it, parsing fails: the read of the hash
  length field is out of bounds, and the exception becomes \<^verbatim>\<open>{ success: false }\<close>. If the
  hash length field is readable, parsing succeeds whatever its value: the hash is cut to
  the bytes that remain.
\<close>

theorem C9_length_fields:
  assumes "getUint32 payload 0 = Inr encLen"
  shows "(length payload - 4 < encLen \<longrightarrow> parsePayload decode payload = Inl RangeError)
         \<and> (\<forall>hashLen. getUint32 payload (32 + encLen) = Inr hashLen \<longrightarrow>
               parsePayload decode payload
                 = Inr \<lparr>encryptedData = slice payload 4 (4 + encLen),
                        iv = slice payload (4 + encLen) (16 + encLen),
                        salt = slice payload (16 + encLen) (32 + encLen),
                        hash = decode (take hashLen (drop (36 + encLen) payload))\<rparr>)"
proof -
  have "parsePayload decode payload = Inl RangeError" if "length payload - 4 < encLen"
  proof -
    have "getUint32 payload (32 + encLen) = Inl RangeError"
      using that by (simp add: getUint32_def)
    then show ?thesis
      using assms by (simp add: parsePayload_def bindE_def Let_def add.commute)
  qed
  moreover have "parsePayload decode payload
                 = Inr \<lparr>encryptedData = slice payload 4 (4 + encLen),
                        iv = slice payload (4 + encLen) (16 + encLen),
                        salt = slice payload (16 + encLen) (32 + encLen),
                        hash = decode (take hashLen (drop (36 + encLen) payload))\<rparr>"
    if "getUint32 payload (32 + encLen) = Inr hashLen" for hashLen
    using that assms
    by (simp add: parsePayload_def bindE_def Let_def slice_def add.commute add.left_commute)
  ultimately show ?thesis by blast
qed

theorem C9_length_fields_witness:
  "getUint32 payload_long_ciphertext 0 = Inr 40
   \<and> length payload_long_ciphertext - 4 < 40
   \<and> parsePayload ascii_decode payload_long_ciphertext = Inl RangeError
   \<and> getUint32 payload_example 0 = Inr 3
   \<and> getUint32 payload_example (32 + 3) = Inr 2
   \<and> parsePayload ascii_decode payload_example
       = Inr \<lparr>encryptedData = slice payload_example 4 (4 + 3),
              iv = slice payload_example (4 + 3) (16 + 3),
              salt = slice payload_example (16 + 3) (32 + 3),
              hash = ascii_decode (take 2 (drop (36 + 3) payload_example))\<rparr>"
proof -
  have a: "getUint32 payload_long_ciphertext 0 = Inr 40"
    by (simp add: getUint32_def payload_long_ciphertext_def)
  have b: "length payload_long_ciphertext - 4 < 40"
    by (simp add: payload_long_ciphertext_def)
  have c: "getUint32 payload_example 0 = Inr 3"
    by (simp add: getUint32_def payload_example_def)
  have "payload_example =
          [0, 0, 0, 3] @ [1, 2, 3] @ replicate 12 7 @ replicate 16 9 @ u32be 2 @ [0x61, 0x62]"
    by (simp add: payload_example_def u32be_def)
  then have "getUint32 payload_example 35 = Inr (2 mod 2 ^ 32)"
    using getUint32_at [of "[0, 0, 0, 3] @ [1, 2, 3] @ replicate 12 7 @ replicate 16 9" 35 2
        "[0x61, 0x62]"]
    by simp
  then have d: "getUint32 payload_example (32 + 3) = Inr 2" by simp
  from C9_length_fields [OF a, of ascii_decode] C9_length_fields [OF c, of ascii_decode] a b c d
  show ?thesis by blast
qed

text \<open>
  C9, as stated, fails for the hash length field: with 2 bytes left and a hash length of 5
  the result is a success whose hash is those 2 bytes.
\<close>

theorem C9_counterexample:
  "getUint32 payload_short_hash 32 = Inr 5
   \<and> length payload_short_hash - 36 = 2
   \<and> parsePayload ascii_decode payload_short_hash
       = Inr \<lparr>encryptedData = [], iv = replicate 12 0, salt = replicate 16 0, hash = [1, 2]\<rparr>"
proof -
  have r12: "replicate 12 (0 :: u8) = [0, 0, 0, 0, 0, 0, 0, 0, 0, 0, 0, 0]"
    by (simp add: numeral_eq_Suc)
  have r16: "replicate 16 (0 :: u8) = [0, 0, 0, 0, 0, 0, 0, 0, 0, 0, 0, 0, 0, 0, 0, 0]"
    by (simp add: numeral_eq_Suc)
  show ?thesis
    unfolding r12 r16
    by (simp add: payload_short_hash_def parsePayload_def getUint32_def bindE_def slice_def
        ascii_decode_def)
qed

text \<open>
  C10. The scheduler is called with the dimensions of a canvas. For every canvas of at
  most \<open>2^32 - 2^11\<close> pixels (every canvas whose sides are at most 65535 among them),
  every byte count with \<open>32 + dataLength * 8 \<le> width * height\<close> and every seed string, the
  call returns, and what it returns is a sequence of exactly \<open>32 + dataLength * 8\<close>
  pairwise distinct pixel indices below \<open>width * height\<close>. The positions are those the
  code computes in double precision.
\<close>

theorem C10_scheduler_returns:
  assumes "32 + dataLength * 8 \<le> w * h" and "w * h \<le> 2 ^ 32 - 2 ^ 11"
  shows "\<exists>ps. generatePixelPositions w h dataLength seed = Some (Inr ps)
              \<and> length ps = 32 + dataLength * 8 \<and> distinct ps \<and> (\<forall>p \<in> set ps. p < w * h)"
proof -
  obtain ps where ps: "generatePixelPositions w h dataLength seed = Some (Inr ps)"
    using generatePixelPositions_returns [OF assms] by blast
  from generatePixelPositions_result [OF ps] ps show ?thesis by auto
qed

theorem C10_scheduler_returns_witness:
  "32 + 4 * 8 \<le> 100 * (100::nat) \<and> 100 * 100 \<le> (2 ^ 32 - 2 ^ 11 :: nat)
   \<and> (\<exists>ps. generatePixelPositions 100 100 4 password_Aa = Some (Inr ps)
            \<and> length ps = 32 + 4 * 8 \<and> distinct ps \<and> (\<forall>p \<in> set ps. p < 100 * 100))"
proof -
  have a: "32 + 4 * 8 \<le> 100 * (100::nat)" by simp
  have b: "100 * 100 \<le> (2 ^ 32 - 2 ^ 11 :: nat)" by simp
  from C10_scheduler_returns [OF a b, of password_Aa] a b show ?thesis by blast
qed

end

